theory Spec2Isabelle
  imports Main "HOL-Library.Sublist"
begin

section \<open>Text\<close>

text \<open>
  A Python \<open>str\<close> is a sequence of Unicode code points. A code point is modelled as a
  natural number and a string as a list of them, so that the character classes of the
  regular expressions (\<open>\s\<close> is Unicode white space) and \<open>str.strip\<close> are the ones
  of Python on every text, not only on ASCII. \<open>str\<close> turns an Isabelle string
  literal into such a text.
\<close>

type_synonym pystr = "nat list"

definition str :: "string \<Rightarrow> pystr" where
  "str s = map of_char s"

text \<open>
  \<open>py_isspace\<close> is the class \<open>\s\<close> of a \<open>str\<close> pattern and the set that
  \<open>str.strip()\<close> removes: the code points on which CPython's \<open>Py_UNICODE_ISSPACE\<close>
  holds.
\<close>

definition py_isspace :: "nat \<Rightarrow> bool" where
  "py_isspace c \<longleftrightarrow>
     (9 \<le> c \<and> c \<le> 13) \<or> (28 \<le> c \<and> c \<le> 32) \<or> c = 133 \<or> c = 160 \<or> c = 5760 \<or>
     (8192 \<le> c \<and> c \<le> 8202) \<or> c = 8232 \<or> c = 8233 \<or> c = 8239 \<or> c = 8287 \<or> c = 12288"

section \<open>The reference parser\<close>

text \<open>
  \<open>parse_repo_string\<close> applies \<open>re.match(r"([^/]+)/([^@]+)@(.+)", repo_string)\<close>.
  \<open>re.match\<close> anchors the pattern at the start of the string only, every quantifier is
  greedy, and \<open>.\<close> is any character but the line feed (code point 10):
  \<^item> \<open>([^/]+)/\<close>: the longest run of characters other than \<open>/\<close>, not empty, and a
    \<open>/\<close> right after it (a shorter run is followed by a character other than \<open>/\<close>, so
    backtracking finds nothing else);
  \<^item> \<open>([^@]+)@\<close>: likewise up to the first \<open>@\<close> after that;
  \<^item> \<open>(.+)\<close>: the longest run of characters other than the line feed, not empty;
    whatever follows it is not part of the match.
\<close>

definition re_match_repo :: "pystr \<Rightarrow> (pystr \<times> pystr \<times> pystr) option" where
  "re_match_repo s =
     (let user = takeWhile (\<lambda>c. c \<noteq> 47) s; r1 = dropWhile (\<lambda>c. c \<noteq> 47) s in
      if user = [] \<or> r1 = [] then None
      else
        let repo = takeWhile (\<lambda>c. c \<noteq> 64) (tl r1); r2 = dropWhile (\<lambda>c. c \<noteq> 64) (tl r1) in
        if repo = [] \<or> r2 = [] then None
        else
          let branch = takeWhile (\<lambda>c. c \<noteq> 10) (tl r2) in
          if branch = [] then None else Some (user, repo, branch))"

datatype value_error =
    EmptyPart      \<comment> \<open>"User, repository name, and branch cannot be empty."\<close>
  | BadFormat      \<comment> \<open>"Repository string must be in the format 'user/repo@branch'."\<close>

definition parse_repo_string :: "pystr \<Rightarrow> value_error + (pystr \<times> pystr \<times> pystr)" where
  "parse_repo_string repo_string =
     (case re_match_repo repo_string of
        Some (user, repo, branch) \<Rightarrow>
          if user \<noteq> [] \<and> repo \<noteq> [] \<and> branch \<noteq> [] then Inr (user, repo, branch)
          else Inl EmptyPart
      | None \<Rightarrow> Inl BadFormat)"

section \<open>The link rewriter\<close>

subsection \<open>The two patterns\<close>

text \<open>
  The character class \<open>[^\s\"\'\)<>]\<close> of the captured path: anything but white space
  and the five characters \<open>"\<close> (34), \<open>'\<close> (39), \<open>)\<close> (41), \<open><\<close> (60), \<open>>\<close> (62).
\<close>

definition path_char :: "nat \<Rightarrow> bool" where
  "path_char c \<longleftrightarrow> \<not> py_isspace c \<and> c \<noteq> 34 \<and> c \<noteq> 39 \<and> c \<noteq> 41 \<and> c \<noteq> 60 \<and> c \<noteq> 62"

text \<open>
  Both patterns have the shape \<open>https?\<close> \<open>literal\<close> \<open>([^\s\"\'\)<>]+)\<close>. The literal
  part contains \<open>re.escape(repo_user)\<close>, \<open>re.escape(repo_name)\<close> and
  \<open>re.escape(branch)\<close>; \<open>re.escape\<close> is modelled by its contract, that the escaped
  string matches exactly the string it was made from, and \<open>\.\<close> is the literal dot. A
  compiled pattern is therefore represented by its literal part.
\<close>

definition jsdelivr_pattern :: "pystr \<Rightarrow> pystr \<Rightarrow> pystr \<Rightarrow> pystr" where
  "jsdelivr_pattern repo_user repo_name branch =
     str ''://cdn.jsdelivr.net/gh/'' @ repo_user @ str ''/'' @ repo_name @ str ''@'' @ branch @ str ''/''"

definition github_raw_pattern :: "pystr \<Rightarrow> pystr \<Rightarrow> pystr \<Rightarrow> pystr" where
  "github_raw_pattern repo_user repo_name branch =
     str ''://raw.githubusercontent.com/'' @ repo_user @ str ''/'' @ repo_name @ str ''/'' @ branch @ str ''/''"

fun strip_prefix :: "pystr \<Rightarrow> pystr \<Rightarrow> pystr option" where
  "strip_prefix [] t = Some t"
| "strip_prefix (p # ps) [] = None"
| "strip_prefix (p # ps) (c # cs) = (if p = c then strip_prefix ps cs else None)"

text \<open>
  \<open>match_tail\<close> matches the literal part and the capture group at the head of a text. The
  group is greedy and nothing follows it in the pattern, so it takes the longest run of
  path characters; \<open>+\<close> wants at least one. The result is the captured path and the
  text after the match.
\<close>

definition match_tail :: "pystr \<Rightarrow> pystr \<Rightarrow> (pystr \<times> pystr) option" where
  "match_tail lit t =
     (case strip_prefix lit t of
        None \<Rightarrow> None
      | Some r \<Rightarrow>
          if takeWhile path_char r = [] then None
          else Some (takeWhile path_char r, dropWhile path_char r))"

text \<open>
  \<open>match_here\<close> is one attempt of the pattern at the head of a text: \<open>http\<close>, then
  \<open>s?\<close>, which first tries to consume an \<open>s\<close> and, should the rest fail, tries again
  without consuming it (backtracking), then the rest of the pattern.
\<close>

definition match_here :: "pystr \<Rightarrow> pystr \<Rightarrow> (pystr \<times> pystr) option" where
  "match_here lit t =
     (case strip_prefix (str ''http'') t of
        None \<Rightarrow> None
      | Some r \<Rightarrow>
          (case (case strip_prefix (str ''s'') r of
                   Some r' \<Rightarrow> match_tail lit r'
                 | None \<Rightarrow> None) of
             Some m \<Rightarrow> Some m
           | None \<Rightarrow> match_tail lit r))"

subsection \<open>The replacement and the substitution\<close>

text \<open>
  \<open>replacer\<close> is the closure of the source: it increments the counter
  \<open>replacements_made\<close> of the enclosing call, threaded here as a state, and returns
  \<open>f"{replacement_url_base}/{path.lstrip('/')}"\<close>.
\<close>

definition replacement_url_base :: "pystr \<Rightarrow> pystr" where
  "replacement_url_base custom_domain = str ''https://'' @ custom_domain"

definition lstrip_slash :: "pystr \<Rightarrow> pystr" where
  "lstrip_slash path = dropWhile (\<lambda>c. c = 47) path"

definition replacer :: "pystr \<Rightarrow> pystr \<Rightarrow> nat \<Rightarrow> pystr \<times> nat" where
  "replacer custom_domain path replacements_made =
     (replacement_url_base custom_domain @ str ''/'' @ lstrip_slash path, replacements_made + 1)"

text \<open>
  \<open>pattern.sub(replacer, content)\<close>: the text is scanned from left to right; at each
  position the pattern is tried; a match is replaced by what \<open>replacer\<close> returns and the
  scan goes on after the match; where nothing matches, the character is copied. A match
  of these patterns is never empty.
\<close>

function re_sub :: "pystr \<Rightarrow> pystr \<Rightarrow> pystr \<Rightarrow> nat \<Rightarrow> pystr \<times> nat" where
  "re_sub lit custom_domain [] made = ([], made)"
| "re_sub lit custom_domain (c # cs) made =
     (case match_here lit (c # cs) of
        Some (path, rest) \<Rightarrow>
          (case replacer custom_domain path made of
             (new, made') \<Rightarrow>
               (case re_sub lit custom_domain rest made' of
                  (out, made'') \<Rightarrow> (new @ out, made'')))
      | None \<Rightarrow>
          (case re_sub lit custom_domain cs made of
             (out, made') \<Rightarrow> (c # out, made')))"
  by pat_completeness auto
termination
proof (relation "measure (\<lambda>(lit, custom_domain, t, made). length t)")
  show "wf (measure (\<lambda>(lit, custom_domain, t, made). length t))"
    by simp
next
  fix lit custom_domain :: pystr and c :: nat and cs :: pystr and made :: nat
    and x2 :: "pystr \<times> pystr" and path rest :: pystr and made' :: nat
  assume m: "match_here lit (c # cs) = Some x2" and x2: "(path, rest) = x2"
  have strip_len: "strip_prefix p t = Some r \<Longrightarrow> length r \<le> length t" for p t r
    by (induction p t rule: strip_prefix.induct) (auto split: if_splits)
  have tail_len: "length rest \<le> length t" if "match_tail lit t = Some (path, rest)" for t
  proof -
    from that obtain r where r: "strip_prefix lit t = Some r" and "rest = dropWhile path_char r"
      by (auto simp: match_tail_def split: option.splits if_splits)
    then have "length rest \<le> length r"
      by (simp add: length_dropWhile_le)
    with strip_len[OF r] show ?thesis
      by simp
  qed
  from m x2 obtain r where r: "strip_prefix (str ''http'') (c # cs) = Some r"
    by (auto simp: match_here_def split: option.splits)
  then have "length r < length (c # cs)"
    by (auto simp: str_def split: list.splits if_splits dest!: strip_len)
  moreover have "length rest \<le> length r"
    using m x2 r strip_len[of "str ''s''" r] tail_len
    by (fastforce simp: match_here_def split: option.splits)
  ultimately show "((lit, custom_domain, rest, made'), (lit, custom_domain, c # cs, made))
      \<in> measure (\<lambda>(lit, custom_domain, t, made). length t)"
    by simp
next
  fix lit custom_domain :: pystr and c :: nat and cs :: pystr and made :: nat
  show "((lit, custom_domain, cs, made), (lit, custom_domain, c # cs, made))
      \<in> measure (\<lambda>(lit, custom_domain, t, made). length t)"
    by simp
qed

text \<open>
  The transformation of a file's text, lines 86 to 90 of the source: the two
  substitutions in sequence, on one counter that starts at 0.
\<close>

definition transform :: "pystr \<Rightarrow> pystr \<Rightarrow> pystr \<Rightarrow> pystr \<Rightarrow> pystr \<Rightarrow> pystr \<times> nat" where
  "transform repo_user repo_name branch custom_domain content =
     (case re_sub (jsdelivr_pattern repo_user repo_name branch) custom_domain content 0 of
        (content1, made1) \<Rightarrow>
          re_sub (github_raw_pattern repo_user repo_name branch) custom_domain content1 made1)"

section \<open>Files and output\<close>

text \<open>
  The exception classes that the handlers of the source tell apart:
  \<open>FileNotFoundError\<close>, any other \<open>IOError\<close> (that is \<open>OSError\<close>, for instance
  \<open>PermissionError\<close>), and any other \<open>Exception\<close> (for instance
  \<open>UnicodeDecodeError\<close>).
\<close>

datatype py_exc = FileNotFoundError | IOError | OtherException

text \<open>
  A file is the text that \<open>f_read.read()\<close> returns, together with what the operating
  system does when the file is opened: \<open>read_exc\<close> is the exception that opening for
  reading or reading raises, \<open>write_exc\<close> the one that opening for writing raises (a
  file without write permission has \<open>Some IOError\<close>), \<open>None\<close> when the operation
  succeeds. A path absent from the store raises \<open>FileNotFoundError\<close> when read (a name
  that the walk lists may be a dangling symbolic link).
\<close>

record pyfile =
  data :: pystr
  read_exc :: "py_exc option"
  write_exc :: "py_exc option"

datatype dirtree = Dir (subdirs: "(pystr \<times> dirtree) list") (filenames: "pystr list")

text \<open>The lines the program prints; the wording is in the source.\<close>

datatype line =
    Starting pystr pystr pystr "pystr list"  \<comment> \<open>lines 171 to 176\<close>
  | Processing pystr                         \<comment> \<open>line 187\<close>
  | Replaced nat                             \<comment> \<open>line 98\<close>
  | ErrFileNotFound pystr                    \<comment> \<open>line 105\<close>
  | ErrReadWrite pystr                       \<comment> \<open>line 107\<close>
  | ErrUnexpected pystr                      \<comment> \<open>line 110\<close>
  | ScanComplete                             \<comment> \<open>lines 199 and 200\<close>
  | NoFilesFound "pystr list" pystr          \<comment> \<open>line 202\<close>
  | ProcessedFiles nat                       \<comment> \<open>line 204\<close>
  | MadeReplacements nat                     \<comment> \<open>line 205\<close>
  | ErrInvalidRepo pystr value_error         \<comment> \<open>line 154, on the error stream\<close>
  | ErrNoExtensions                          \<comment> \<open>line 162, on the error stream\<close>

text \<open>
  The world the program runs in: the files by path, the directory trees by the path of
  their root (a path that is no directory has none), the paths opened for writing so far,
  in order, and the two output streams.
\<close>

record world =
  files :: "pystr \<rightharpoonup> pyfile"
  dirs :: "pystr \<rightharpoonup> dirtree"
  written :: "pystr list"
  stdout :: "line list"
  stderr :: "line list"

definition print :: "line \<Rightarrow> world \<Rightarrow> world" where
  "print l w = w\<lparr>stdout := stdout w @ [l]\<rparr>"

definition print_err :: "line \<Rightarrow> world \<Rightarrow> world" where
  "print_err l w = w\<lparr>stderr := stderr w @ [l]\<rparr>"

text \<open>\<open>open(filepath, 'r', encoding='utf-8')\<close> and \<open>f_read.read()\<close>.\<close>

definition read_file :: "world \<Rightarrow> pystr \<Rightarrow> py_exc + pystr" where
  "read_file w filepath =
     (case files w filepath of
        None \<Rightarrow> Inl FileNotFoundError
      | Some f \<Rightarrow> (case read_exc f of Some e \<Rightarrow> Inl e | None \<Rightarrow> Inr (data f)))"

text \<open>
  \<open>open(filepath, 'w', encoding='utf-8')\<close> and \<open>f_write.write(content)\<close>: mode
  \<open>'w'\<close> creates a file that does not exist.
\<close>

definition write_file :: "world \<Rightarrow> pystr \<Rightarrow> pystr \<Rightarrow> py_exc + world" where
  "write_file w filepath content =
     (case files w filepath of
        None \<Rightarrow>
          Inr (w\<lparr>files := (files w)(filepath \<mapsto> \<lparr>data = content, read_exc = None, write_exc = None\<rparr>),
                 written := written w @ [filepath]\<rparr>)
      | Some f \<Rightarrow>
          (case write_exc f of
             Some e \<Rightarrow> Inl e
           | None \<Rightarrow>
               Inr (w\<lparr>files := (files w)(filepath \<mapsto> f\<lparr>data := content\<rparr>),
                      written := written w @ [filepath]\<rparr>)))"

text \<open>
  The three handlers of lines 104 to 110; \<open>FileNotFoundError\<close> is a subclass of
  \<open>IOError\<close> and its handler comes first.
\<close>

definition handler :: "pystr \<Rightarrow> py_exc \<Rightarrow> line" where
  "handler filepath e =
     (case e of
        FileNotFoundError \<Rightarrow> ErrFileNotFound filepath
      | IOError \<Rightarrow> ErrReadWrite filepath
      | OtherException \<Rightarrow> ErrUnexpected filepath)"

text \<open>
  \<open>replace_links_in_file\<close> returns the counter \<open>replacements_made\<close> on every path,
  also after an exception: the handlers print and fall through to the \<open>return\<close> of line
  112, with the counter as the substitutions left it.
\<close>

definition replace_links_in_file ::
    "pystr \<Rightarrow> pystr \<Rightarrow> pystr \<Rightarrow> pystr \<Rightarrow> pystr \<Rightarrow> world \<Rightarrow> nat \<times> world" where
  "replace_links_in_file filepath repo_user repo_name branch custom_domain w =
     (case read_file w filepath of
        Inl e \<Rightarrow> (0, print (handler filepath e) w)
      | Inr original_content \<Rightarrow>
          (case transform repo_user repo_name branch custom_domain original_content of
             (content, replacements_made) \<Rightarrow>
               if content \<noteq> original_content then
                 (case write_file w filepath content of
                    Inl e \<Rightarrow> (replacements_made, print (handler filepath e) w)
                  | Inr w' \<Rightarrow> (replacements_made, print (Replaced replacements_made) w'))
               else (replacements_made, w)))"

section \<open>The file walker and \<open>main\<close>\<close>

text \<open>\<open>os.path.join\<close> of two components, on POSIX.\<close>

definition os_path_join :: "pystr \<Rightarrow> pystr \<Rightarrow> pystr" where
  "os_path_join a b =
     (if b \<noteq> [] \<and> hd b = 47 then b
      else if a = [] \<or> last a = 47 then a @ b
      else a @ 47 # b)"

text \<open>
  \<open>os.walk(top)\<close>, top down: the directory itself, then each of its subdirectories. A
  path that is no directory yields nothing, since \<open>os.walk\<close> ignores the error of
  listing it. The program changes the text of files only, never the directories, so the
  walk is the same whether it is computed lazily, as in the source, or at once.
\<close>

fun os_walk :: "pystr \<Rightarrow> dirtree \<Rightarrow> (pystr \<times> pystr list \<times> pystr list) list"
  and os_walk_subdirs :: "pystr \<Rightarrow> (pystr \<times> dirtree) list \<Rightarrow> (pystr \<times> pystr list \<times> pystr list) list" where
  "os_walk dirpath (Dir ds fs) = (dirpath, map fst ds, fs) # os_walk_subdirs dirpath ds"
| "os_walk_subdirs dirpath [] = []"
| "os_walk_subdirs dirpath ((name, sub) # ds) = os_walk (os_path_join dirpath name) sub @ os_walk_subdirs dirpath ds"

definition walk :: "world \<Rightarrow> pystr \<Rightarrow> (pystr \<times> pystr list \<times> pystr list) list" where
  "walk w start_dir = (case dirs w start_dir of None \<Rightarrow> [] | Some t \<Rightarrow> os_walk start_dir t)"

text \<open>\<open>str.split(',')\<close>: one piece more than there are commas; pieces may be empty.\<close>

fun split_comma :: "pystr \<Rightarrow> pystr list" where
  "split_comma [] = [[]]"
| "split_comma (c # cs) =
     (if c = 44 then [] # split_comma cs
      else (case split_comma cs of p # ps \<Rightarrow> (c # p) # ps | [] \<Rightarrow> [[c]]))"

text \<open>\<open>str.strip()\<close>: white space removed at both ends.\<close>

definition strip :: "pystr \<Rightarrow> pystr" where
  "strip s = rev (dropWhile py_isspace (rev (dropWhile py_isspace s)))"

text \<open>
  Line 160: \<open>tuple(ext.strip().lower() for ext in args.extensions.split(',') if ext.strip())\<close>.
  \<open>str.lower\<close> is the lower-casing of the Unicode character database, which is no part
  of this repository: it is the parameter \<open>lower\<close> of everything that uses it.
  \<open>ascii_lower\<close> is what it does on ASCII text.
\<close>

definition file_extensions :: "(pystr \<Rightarrow> pystr) \<Rightarrow> pystr \<Rightarrow> pystr list" where
  "file_extensions lower extensions =
     map (\<lambda>ext. lower (strip ext)) (filter (\<lambda>ext. strip ext \<noteq> []) (split_comma extensions))"

definition ascii_lower :: "pystr \<Rightarrow> pystr" where
  "ascii_lower s = map (\<lambda>c. if 65 \<le> c \<and> c \<le> 90 then c + 32 else c) s"

text \<open>\<open>str.endswith\<close> of a string, and of a tuple of strings as in line 183.\<close>

definition endswith1 :: "pystr \<Rightarrow> pystr \<Rightarrow> bool" where
  "endswith1 s e \<longleftrightarrow> length e \<le> length s \<and> drop (length s - length e) s = e"

definition endswith :: "pystr \<Rightarrow> pystr list \<Rightarrow> bool" where
  "endswith s es = list_ex (endswith1 s) es"


text \<open>
  The configuration of a run after validation, and the two counters of \<open>main\<close> with the
  world.
\<close>

record config =
  repo_user :: pystr
  repo_name :: pystr
  branch :: pystr
  custom_domain :: pystr
  exts :: "pystr list"

type_synonym run_state = "nat \<times> nat \<times> world"

text \<open>
  The body of the inner loop, lines 183 to 195. \<open>replace_links_in_file\<close> returns on
  every path, so the handler of line 193 is never entered. The line printed is the one of
  line 187, with the path in place of the relative path.
\<close>

definition visit_file :: "(pystr \<Rightarrow> pystr) \<Rightarrow> config \<Rightarrow> pystr \<Rightarrow> pystr \<Rightarrow> run_state \<Rightarrow> run_state" where
  "visit_file lower cfg root filename st =
     (case st of (total_files_processed, total_replacements, w) \<Rightarrow>
        if endswith (lower filename) (exts cfg) then
          (case replace_links_in_file (os_path_join root filename)
                  (repo_user cfg) (repo_name cfg) (branch cfg) (custom_domain cfg)
                  (print (Processing (os_path_join root filename)) w) of
             (count, w') \<Rightarrow> (total_files_processed + 1, total_replacements + count, w'))
        else st)"

definition visit_dir :: "(pystr \<Rightarrow> pystr) \<Rightarrow> config \<Rightarrow> pystr \<times> pystr list \<times> pystr list \<Rightarrow> run_state \<Rightarrow> run_state" where
  "visit_dir lower cfg entry st =
     (case entry of (root, ds, fs) \<Rightarrow> fold (visit_file lower cfg root) fs st)"

definition walk_loop :: "(pystr \<Rightarrow> pystr) \<Rightarrow> config \<Rightarrow> pystr \<Rightarrow> world \<Rightarrow> run_state" where
  "walk_loop lower cfg start_dir w = fold (visit_dir lower cfg) (walk w start_dir) (0, 0, w)"

record args =
  repo :: pystr
  domain :: pystr
  directory :: pystr
  extensions :: pystr

text \<open>
  \<open>main\<close> after \<open>parser.parse_args()\<close>: the result is the exit status of the process
  and the world it leaves. \<open>sys.exit(1)\<close> is status 1; returning from \<open>main\<close> ends the
  script with status 0.
\<close>

definition summary :: "pystr list \<Rightarrow> pystr \<Rightarrow> run_state \<Rightarrow> world" where
  "summary file_exts start_dir st =
     (case st of (total_files_processed, total_replacements, w) \<Rightarrow>
        if total_files_processed = 0 then print (NoFilesFound file_exts start_dir) (print ScanComplete w)
        else print (MadeReplacements total_replacements)
               (print (ProcessedFiles total_files_processed) (print ScanComplete w)))"

definition main :: "(pystr \<Rightarrow> pystr) \<Rightarrow> args \<Rightarrow> world \<Rightarrow> nat \<times> world" where
  "main lower a w =
     (case parse_repo_string (repo a) of
        Inl e \<Rightarrow> (1, print_err (ErrInvalidRepo (repo a) e) w)
      | Inr (user, name, br) \<Rightarrow>
          if file_extensions lower (extensions a) = [] then (1, print_err ErrNoExtensions w)
          else
            (0, summary (file_extensions lower (extensions a)) (directory a)
                  (walk_loop lower
                     \<lparr>repo_user = user, repo_name = name, branch = br, custom_domain = domain a,
                      exts = file_extensions lower (extensions a)\<rparr>
                     (directory a)
                     (print (Starting (repo a) (domain a) (directory a)
                               (file_extensions lower (extensions a))) w))))"

section \<open>A check on texts\<close>

text \<open>
  \<open>single_scheme False t\<close> checks, in one pass over \<open>t\<close>, that no run of path characters of
  \<open>t\<close> holds \<open>://\<close> twice: \<open>seen\<close> tells whether \<open>://\<close> has occurred since the last
  character that is no path character. It is no part of the program; it decides a
  hypothesis on concrete texts.
\<close>

fun single_scheme :: "bool \<Rightarrow> pystr \<Rightarrow> bool" where
  "single_scheme seen [] = True"
| "single_scheme seen (c # cs) =
     (if \<not> path_char c then single_scheme False cs
      else if prefix (str ''://'') (c # cs) then \<not> seen \<and> single_scheme True cs
      else single_scheme seen cs)"

section \<open>Example worlds\<close>

text \<open>
  A directory \<open>.\<close> with the two files \<open>a.md\<close> and \<open>notes.txt\<close>; \<open>a.md\<close> has
  the given text and, when opened for writing, raises the given exception, if any.
\<close>

definition example_world :: "pystr \<Rightarrow> py_exc option \<Rightarrow> world" where
  "example_world content wexc =
     \<lparr>files = [str ''./a.md'' \<mapsto> \<lparr>data = content, read_exc = None, write_exc = wexc\<rparr>],
      dirs = [str ''.'' \<mapsto> Dir [] [str ''a.md'', str ''notes.txt'']],
      written = [], stdout = [], stderr = []\<rparr>"

section \<open>Properties of the reference parser\<close>

lemma takeWhile_stop: "\<forall>x\<in>set u. P x \<Longrightarrow> \<not> P c \<Longrightarrow> takeWhile P (u @ c # r) = u"
  by (induction u) auto

lemma dropWhile_stop: "\<forall>x\<in>set u. P x \<Longrightarrow> \<not> P c \<Longrightarrow> dropWhile P (u @ c # r) = c # r"
  by (induction u) auto

lemma re_match_repo_form:
  assumes "u \<noteq> []" "47 \<notin> set u" "n \<noteq> []" "64 \<notin> set n"
  shows "re_match_repo (u @ 47 # n @ 64 # b) =
     (if takeWhile (\<lambda>c. c \<noteq> 10) b = [] then None else Some (u, n, takeWhile (\<lambda>c. c \<noteq> 10) b))"
proof -
  have 1: "takeWhile (\<lambda>c. c \<noteq> 47) (u @ 47 # n @ 64 # b) = u"
    using assms by (intro takeWhile_stop) auto
  have 2: "dropWhile (\<lambda>c. c \<noteq> 47) (u @ 47 # n @ 64 # b) = 47 # n @ 64 # b"
    using assms by (intro dropWhile_stop) auto
  have 3: "takeWhile (\<lambda>c. c \<noteq> 64) (n @ 64 # b) = n"
    using assms by (intro takeWhile_stop) auto
  have 4: "dropWhile (\<lambda>c. c \<noteq> 64) (n @ 64 # b) = 64 # b"
    using assms by (intro dropWhile_stop) auto
  show ?thesis
    unfolding re_match_repo_def Let_def 1 2 using assms by (simp add: 3 4)
qed

lemma re_match_repo_SomeD:
  assumes "re_match_repo s = Some (u, n, b)"
  shows "\<exists>rest. s = u @ 47 # n @ 64 # b @ rest \<and> u \<noteq> [] \<and> 47 \<notin> set u \<and> n \<noteq> [] \<and> 64 \<notin> set n
     \<and> b \<noteq> [] \<and> 10 \<notin> set b \<and> (rest = [] \<or> hd rest = 10)"
proof -
  define r1 where "r1 = dropWhile (\<lambda>c. c \<noteq> 47) s"
  define r2 where "r2 = dropWhile (\<lambda>c. c \<noteq> 64) (tl r1)"
  define rest where "rest = dropWhile (\<lambda>c. c \<noteq> 10) (tl r2)"
  from assms have u: "u = takeWhile (\<lambda>c. c \<noteq> 47) s" and "u \<noteq> []" and "r1 \<noteq> []"
    and n: "n = takeWhile (\<lambda>c. c \<noteq> 64) (tl r1)" and "n \<noteq> []" and "r2 \<noteq> []"
    and b: "b = takeWhile (\<lambda>c. c \<noteq> 10) (tl r2)" and "b \<noteq> []"
    unfolding re_match_repo_def Let_def r1_def r2_def
    by (auto split: if_splits)
  have s: "s = u @ r1"
    by (simp add: u r1_def)
  have "hd r1 = 47"
    using \<open>r1 \<noteq> []\<close> hd_dropWhile[of "\<lambda>c. c \<noteq> 47" s] by (auto simp: r1_def)
  then have r1: "r1 = 47 # tl r1"
    using \<open>r1 \<noteq> []\<close> by (cases r1) auto
  have t1: "tl r1 = n @ r2"
    by (simp add: n r2_def)
  have "hd r2 = 64"
    using \<open>r2 \<noteq> []\<close> hd_dropWhile[of "\<lambda>c. c \<noteq> 64" "tl r1"] by (auto simp: r2_def)
  then have r2: "r2 = 64 # tl r2"
    using \<open>r2 \<noteq> []\<close> by (cases r2) auto
  have t2: "tl r2 = b @ rest"
    by (simp add: b rest_def)
  have rest: "rest = [] \<or> hd rest = 10"
    using hd_dropWhile[of "\<lambda>c. c \<noteq> 10" "tl r2"] by (auto simp: rest_def)
  have "s = u @ 47 # n @ 64 # b @ rest"
    using s r1 t1 r2 t2 by metis
  moreover have "47 \<notin> set u"
    unfolding u by (auto dest: set_takeWhileD)
  moreover have "64 \<notin> set n"
    unfolding n by (auto dest: set_takeWhileD)
  moreover have "10 \<notin> set b"
    unfolding b by (auto dest: set_takeWhileD)
  ultimately show ?thesis
    using \<open>u \<noteq> []\<close> \<open>n \<noteq> []\<close> \<open>b \<noteq> []\<close> rest by blast
qed

lemma takeWhile_first_line:
  assumes "10 \<notin> set b" "rest = [] \<or> hd rest = 10"
  shows "takeWhile (\<lambda>c. c \<noteq> 10) (b @ rest) = b"
proof (cases rest)
  case Nil
  with assms show ?thesis by (simp add: takeWhile_eq_all_conv) metis
next
  case (Cons c cs)
  with assms have "c = 10" by simp
  with Cons assms show ?thesis
    using takeWhile_stop[of b "\<lambda>c. c \<noteq> 10" 10 cs] by fastforce
qed

lemma parse_repo_string_Inr_iff:
  "parse_repo_string s = Inr (u, n, b) \<longleftrightarrow>
     (\<exists>rest. s = u @ 47 # n @ 64 # b @ rest \<and> u \<noteq> [] \<and> 47 \<notin> set u \<and> n \<noteq> [] \<and> 64 \<notin> set n
        \<and> b \<noteq> [] \<and> 10 \<notin> set b \<and> (rest = [] \<or> hd rest = 10))"
proof
  assume "parse_repo_string s = Inr (u, n, b)"
  then have "re_match_repo s = Some (u, n, b)"
    by (auto simp: parse_repo_string_def split: option.splits if_splits)
  then show "\<exists>rest. s = u @ 47 # n @ 64 # b @ rest \<and> u \<noteq> [] \<and> 47 \<notin> set u \<and> n \<noteq> [] \<and> 64 \<notin> set n
        \<and> b \<noteq> [] \<and> 10 \<notin> set b \<and> (rest = [] \<or> hd rest = 10)"
    by (rule re_match_repo_SomeD)
next
  assume "\<exists>rest. s = u @ 47 # n @ 64 # b @ rest \<and> u \<noteq> [] \<and> 47 \<notin> set u \<and> n \<noteq> [] \<and> 64 \<notin> set n
        \<and> b \<noteq> [] \<and> 10 \<notin> set b \<and> (rest = [] \<or> hd rest = 10)"
  then obtain rest where s: "s = u @ 47 # n @ 64 # b @ rest" and h: "u \<noteq> []" "47 \<notin> set u" "n \<noteq> []" "64 \<notin> set n"
    and b: "b \<noteq> []" "10 \<notin> set b" "rest = [] \<or> hd rest = 10"
    by blast
  have "takeWhile (\<lambda>c. c \<noteq> 10) (b @ rest) = b"
    using b by (intro takeWhile_first_line) auto
  then have "re_match_repo s = Some (u, n, b)"
    unfolding s using re_match_repo_form[OF h, of "b @ rest"] b by simp
  then show "parse_repo_string s = Inr (u, n, b)"
    using h b by (simp add: parse_repo_string_def)
qed

lemma parse_repo_string_total:
  "parse_repo_string s = Inl BadFormat \<or> (\<exists>u n b. parse_repo_string s = Inr (u, n, b))"
proof (cases "re_match_repo s")
  case None
  then show ?thesis by (simp add: parse_repo_string_def)
next
  case (Some r)
  obtain u n b where r: "r = (u, n, b)" by (cases r) auto
  from Some r re_match_repo_SomeD[of s u n b] have "u \<noteq> []" "n \<noteq> []" "b \<noteq> []"
    by auto
  with Some r show ?thesis by (simp add: parse_repo_string_def)
qed

text \<open>
  C3, as amended. In code points, \<open>/\<close> is 47, \<open>@\<close> is 64 and the line feed is 10. The
  parser returns \<open>(u, n, b)\<close> exactly on the strings that start with \<open>u/n@b\<close>, where
  \<open>u\<close> is not empty and has no \<open>/\<close>, \<open>n\<close> is not empty and has no \<open>@\<close>, \<open>b\<close> is not
  empty and has no line feed, and where the string ends after \<open>b\<close> or goes on with a line
  feed. On every other string it fails with the validation error of the format; the error
  of an empty part is never raised. \<open>alice/myrepo@main\<close> yields
  \<open>(alice, myrepo, main)\<close> and \<open>alice/myrepo\<close> fails.
\<close>

theorem parse_repo_string_accepts:
  "(parse_repo_string s = Inr (u, n, b) \<longleftrightarrow>
      (\<exists>rest. s = u @ str ''/'' @ n @ str ''@'' @ b @ rest \<and> u \<noteq> [] \<and> 47 \<notin> set u \<and> n \<noteq> []
         \<and> 64 \<notin> set n \<and> b \<noteq> [] \<and> 10 \<notin> set b \<and> (rest = [] \<or> hd rest = 10)))
   \<and> ((\<forall>r. parse_repo_string s \<noteq> Inr r) \<longrightarrow> parse_repo_string s = Inl BadFormat)
   \<and> parse_repo_string (str ''alice/myrepo@main'') = Inr (str ''alice'', str ''myrepo'', str ''main'')
   \<and> parse_repo_string (str ''alice/myrepo'') = Inl BadFormat"
proof -
  have "str ''/'' = [47]" "str ''@'' = [64]"
    by (simp_all add: str_def)
  then have 1: "parse_repo_string s = Inr (u, n, b) \<longleftrightarrow>
      (\<exists>rest. s = u @ str ''/'' @ n @ str ''@'' @ b @ rest \<and> u \<noteq> [] \<and> 47 \<notin> set u \<and> n \<noteq> []
         \<and> 64 \<notin> set n \<and> b \<noteq> [] \<and> 10 \<notin> set b \<and> (rest = [] \<or> hd rest = 10))"
    using parse_repo_string_Inr_iff[of s u n b] by simp
  have 2: "(\<forall>r. parse_repo_string s \<noteq> Inr r) \<longrightarrow> parse_repo_string s = Inl BadFormat"
    using parse_repo_string_total[of s] by auto
  have 3: "parse_repo_string (str ''alice/myrepo@main'') = Inr (str ''alice'', str ''myrepo'', str ''main'')"
    by (simp add: parse_repo_string_def re_match_repo_def str_def)
  have 4: "parse_repo_string (str ''alice/myrepo'') = Inl BadFormat"
    by (simp add: parse_repo_string_def re_match_repo_def str_def)
  from 1 2 3 4 show ?thesis by blast
qed

theorem parse_repo_string_accepts_witness:
  "parse_repo_string (str ''alice/myrepo@main'' @ [10] @ str ''x'') = Inr (str ''alice'', str ''myrepo'', str ''main'')
   \<and> (\<forall>r. parse_repo_string (str ''alice@main'') \<noteq> Inr r)
   \<and> parse_repo_string (str ''alice@main'') = Inl BadFormat"
proof -
  have ex: "\<exists>rest. str ''alice/myrepo@main'' @ [10] @ str ''x''
        = str ''alice'' @ str ''/'' @ str ''myrepo'' @ str ''@'' @ str ''main'' @ rest
      \<and> str ''alice'' \<noteq> [] \<and> 47 \<notin> set (str ''alice'') \<and> str ''myrepo'' \<noteq> []
      \<and> 64 \<notin> set (str ''myrepo'') \<and> str ''main'' \<noteq> [] \<and> 10 \<notin> set (str ''main'')
      \<and> (rest = [] \<or> hd rest = 10)"
    by (rule exI[of _ "[10] @ str ''x''"]) (simp add: str_def)
  have a: "parse_repo_string (str ''alice/myrepo@main'' @ [10] @ str ''x'')
      = Inr (str ''alice'', str ''myrepo'', str ''main'')"
    using parse_repo_string_accepts[of "str ''alice/myrepo@main'' @ [10] @ str ''x''"
        "str ''alice''" "str ''myrepo''" "str ''main''"] ex
    by blast
  have no: "\<forall>r. parse_repo_string (str ''alice@main'') \<noteq> Inr r"
    by (simp add: parse_repo_string_def re_match_repo_def str_def)
  have b: "parse_repo_string (str ''alice@main'') = Inl BadFormat"
    using parse_repo_string_accepts[of "str ''alice@main''"] no
    by blast
  from a no b show ?thesis by blast
qed

text \<open>
  C3 as stated fails: \<open>a/b@\<close> followed by a line feed and \<open>c\<close> has the form
  owner/name@branch with three parts that are not empty, and the parser rejects it.
\<close>

theorem parse_repo_string_rejects_line_feed:
  "str ''a'' \<noteq> [] \<and> str ''b'' \<noteq> [] \<and> [10] @ str ''c'' \<noteq> []
   \<and> parse_repo_string (str ''a'' @ str ''/'' @ str ''b'' @ str ''@'' @ ([10] @ str ''c'')) = Inl BadFormat"
  by (simp add: parse_repo_string_def re_match_repo_def str_def)

text \<open>
  C10, as amended: every string \<open>u/n@b\<close> with \<open>u\<close> not empty and without \<open>/\<close>, \<open>n\<close>
  not empty and without \<open>@\<close>, and \<open>b\<close> not empty and without line feed parses to
  \<open>(u, n, b)\<close>. So the name may contain \<open>/\<close>, the branch \<open>@\<close> and \<open>/\<close>, and the
  owner \<open>@\<close>.
\<close>

theorem parse_repo_string_lax:
  assumes "u \<noteq> []" "47 \<notin> set u" "n \<noteq> []" "64 \<notin> set n" "b \<noteq> []" "10 \<notin> set b"
  shows "parse_repo_string (u @ str ''/'' @ n @ str ''@'' @ b) = Inr (u, n, b)"
proof -
  have "u @ str ''/'' @ n @ str ''@'' @ b = u @ 47 # n @ 64 # b @ []"
    by (simp add: str_def)
  with assms show ?thesis
    using parse_repo_string_Inr_iff[of "u @ str ''/'' @ n @ str ''@'' @ b" u n b] by blast
qed

theorem parse_repo_string_lax_witness:
  "parse_repo_string (str ''a/b/c@d'') = Inr (str ''a'', str ''b/c'', str ''d'')
   \<and> parse_repo_string (str ''a@x/b@c@d/e'') = Inr (str ''a@x'', str ''b'', str ''c@d/e'')"
proof -
  have 1: "parse_repo_string (str ''a'' @ str ''/'' @ str ''b/c'' @ str ''@'' @ str ''d'')
      = Inr (str ''a'', str ''b/c'', str ''d'')"
    by (rule parse_repo_string_lax) (simp_all add: str_def)
  have 2: "parse_repo_string (str ''a@x'' @ str ''/'' @ str ''b'' @ str ''@'' @ str ''c@d/e'')
      = Inr (str ''a@x'', str ''b'', str ''c@d/e'')"
    by (rule parse_repo_string_lax) (simp_all add: str_def)
  have "str ''a'' @ str ''/'' @ str ''b/c'' @ str ''@'' @ str ''d'' = str ''a/b/c@d''"
    "str ''a@x'' @ str ''/'' @ str ''b'' @ str ''@'' @ str ''c@d/e'' = str ''a@x/b@c@d/e''"
    by (simp_all add: str_def)
  with 1 2 show ?thesis by simp
qed

text \<open>
  C10 as stated fails where the branch has a line feed: the parser returns the branch up
  to the line feed, not the branch.
\<close>

theorem parse_repo_string_cuts_branch:
  "str ''a'' \<noteq> [] \<and> 47 \<notin> set (str ''a'') \<and> str ''b'' \<noteq> [] \<and> 64 \<notin> set (str ''b'')
   \<and> str ''c'' @ [10] @ str ''d'' \<noteq> []
   \<and> parse_repo_string (str ''a'' @ str ''/'' @ str ''b'' @ str ''@'' @ (str ''c'' @ [10] @ str ''d''))
       = Inr (str ''a'', str ''b'', str ''c'')
   \<and> parse_repo_string (str ''a'' @ str ''/'' @ str ''b'' @ str ''@'' @ (str ''c'' @ [10] @ str ''d''))
       \<noteq> Inr (str ''a'', str ''b'', str ''c'' @ [10] @ str ''d'')"
  by (simp add: parse_repo_string_def re_match_repo_def str_def)

section \<open>Properties of the link rewriter\<close>

lemma strip_prefix_Some_iff: "strip_prefix p t = Some r \<longleftrightarrow> t = p @ r"
  by (induction p t rule: strip_prefix.induct) auto

lemma strip_prefix_append: "strip_prefix p (p @ r) = Some r"
  by (simp add: strip_prefix_Some_iff)

lemma takeWhile_run:
  "\<forall>c\<in>set path. P c \<Longrightarrow> rest = [] \<or> \<not> P (hd rest) \<Longrightarrow> takeWhile P (path @ rest) = path"
  by (cases rest) (auto simp: takeWhile_append2 takeWhile_eq_all_conv)

lemma dropWhile_run:
  "\<forall>c\<in>set path. P c \<Longrightarrow> rest = [] \<or> \<not> P (hd rest) \<Longrightarrow> dropWhile P (path @ rest) = rest"
  by (cases rest) (auto simp: dropWhile_append2)

lemma match_tail_Some_iff:
  "match_tail lit t = Some (path, rest) \<longleftrightarrow>
     t = lit @ path @ rest \<and> path \<noteq> [] \<and> (\<forall>c\<in>set path. path_char c) \<and> (rest = [] \<or> \<not> path_char (hd rest))"
proof
  assume "match_tail lit t = Some (path, rest)"
  then obtain r where r: "t = lit @ r" and p: "path = takeWhile path_char r" "rest = dropWhile path_char r"
    and ne: "path \<noteq> []"
    by (auto simp: match_tail_def strip_prefix_Some_iff split: option.splits if_splits)
  have "rest = [] \<or> \<not> path_char (hd rest)"
    unfolding p using hd_dropWhile[of path_char r] by auto
  moreover have "\<forall>c\<in>set path. path_char c"
    unfolding p by (auto dest: set_takeWhileD)
  moreover have "t = lit @ path @ rest"
    by (simp add: r p)
  ultimately show "t = lit @ path @ rest \<and> path \<noteq> [] \<and> (\<forall>c\<in>set path. path_char c)
      \<and> (rest = [] \<or> \<not> path_char (hd rest))"
    using ne by blast
next
  assume a: "t = lit @ path @ rest \<and> path \<noteq> [] \<and> (\<forall>c\<in>set path. path_char c)
      \<and> (rest = [] \<or> \<not> path_char (hd rest))"
  then have "takeWhile path_char (path @ rest) = path" "dropWhile path_char (path @ rest) = rest"
    using takeWhile_run[of path path_char rest] dropWhile_run[of path path_char rest] by blast+
  with a show "match_tail lit t = Some (path, rest)"
    by (simp add: match_tail_def strip_prefix_append)
qed

lemma match_here_SomeD:
  assumes "match_here lit t = Some (path, rest)"
  shows "(t = str ''https'' @ lit @ path @ rest \<or> t = str ''http'' @ lit @ path @ rest)
     \<and> path \<noteq> [] \<and> (\<forall>c\<in>set path. path_char c) \<and> (rest = [] \<or> \<not> path_char (hd rest))"
proof -
  from assms obtain r where r: "t = str ''http'' @ r"
    by (auto simp: match_here_def strip_prefix_Some_iff split: option.splits)
  from assms r consider
      (s) r' where "r = str ''s'' @ r'" "match_tail lit r' = Some (path, rest)"
    | (plain) "match_tail lit r = Some (path, rest)"
    by (auto simp: match_here_def strip_prefix_append strip_prefix_Some_iff split: option.splits)
  then show ?thesis
  proof cases
    case s
    then have "t = str ''https'' @ lit @ path @ rest"
      using r by (simp add: match_tail_Some_iff str_def)
    with s show ?thesis
      by (simp add: match_tail_Some_iff)
  next
    case plain
    then show ?thesis
      using r by (simp add: match_tail_Some_iff)
  qed
qed

lemma match_here_https:
  assumes "path \<noteq> []" "\<forall>c\<in>set path. path_char c" "rest = [] \<or> \<not> path_char (hd rest)"
  shows "match_here lit (str ''https'' @ lit @ path @ rest) = Some (path, rest)"
proof -
  have "match_tail lit (lit @ path @ rest) = Some (path, rest)"
    using assms by (simp add: match_tail_Some_iff)
  moreover have "strip_prefix (str ''http'') (str ''https'' @ lit @ path @ rest) = Some (str ''s'' @ lit @ path @ rest)"
    by (simp add: strip_prefix_Some_iff str_def)
  moreover have "strip_prefix (str ''s'') (str ''s'' @ lit @ path @ rest) = Some (lit @ path @ rest)"
    by (rule strip_prefix_append)
  ultimately show ?thesis
    by (simp add: match_here_def)
qed

lemma match_here_http:
  assumes "path \<noteq> []" "\<forall>c\<in>set path. path_char c" "rest = [] \<or> \<not> path_char (hd rest)"
    and lit: "lit \<noteq> []" "hd lit \<noteq> 115"
  shows "match_here lit (str ''http'' @ lit @ path @ rest) = Some (path, rest)"
proof -
  have "match_tail lit (lit @ path @ rest) = Some (path, rest)"
    using assms by (simp add: match_tail_Some_iff)
  moreover have "strip_prefix (str ''http'') (str ''http'' @ lit @ path @ rest) = Some (lit @ path @ rest)"
    by (rule strip_prefix_append)
  moreover have "strip_prefix (str ''s'') (lit @ path @ rest) = None"
    using lit by (cases lit) (auto simp: str_def)
  ultimately show ?thesis
    by (simp add: match_here_def)
qed

lemma pattern_hd:
  "jsdelivr_pattern u r b \<noteq> []" "hd (jsdelivr_pattern u r b) \<noteq> 115"
  "github_raw_pattern u r b \<noteq> []" "hd (github_raw_pattern u r b) \<noteq> 115"
  by (simp_all add: jsdelivr_pattern_def github_raw_pattern_def str_def)

text \<open>
  C7. In both patterns, a match at the head of a text is \<open>http\<close> or \<open>https\<close>, the
  literal part, and the captured path, which is the longest run of characters that are
  neither white space nor one of \<open>"\<close> (34), \<open>'\<close> (39), \<open>)\<close> (41), \<open><\<close> (60),
  \<open>>\<close> (62) in the text after the literal part, and is not empty. The replacement is
  \<open>https://\<close>, the custom domain, one \<open>/\<close> (47) and the path without its leading
  slashes, so that no second slash follows the one after the domain.
\<close>

theorem captured_path_longest_run_stripped:
  assumes "lit = jsdelivr_pattern u r b \<or> lit = github_raw_pattern u r b"
    and "match_here lit t = Some (path, rest)"
  shows "(t = str ''https'' @ lit @ path @ rest \<or> t = str ''http'' @ lit @ path @ rest)
     \<and> path = takeWhile (\<lambda>c. \<not> py_isspace c \<and> c \<noteq> 34 \<and> c \<noteq> 39 \<and> c \<noteq> 41 \<and> c \<noteq> 60 \<and> c \<noteq> 62) (path @ rest)
     \<and> path \<noteq> []
     \<and> fst (replacer d path made)
         = str ''https://'' @ d @ str ''/'' @ dropWhile (\<lambda>c. c = 47) path
     \<and> \<not> prefix (str ''https://'' @ d @ str ''//'') (fst (replacer d path made))"
proof -
  note m = match_here_SomeD[OF assms(2)]
  have run: "takeWhile path_char (path @ rest) = path"
    using m takeWhile_run[of path path_char rest] by blast
  have cls: "path_char = (\<lambda>c. \<not> py_isspace c \<and> c \<noteq> 34 \<and> c \<noteq> 39 \<and> c \<noteq> 41 \<and> c \<noteq> 60 \<and> c \<noteq> 62)"
    by (rule ext) (simp add: path_char_def)
  have rep: "fst (replacer d path made)
      = str ''https://'' @ d @ str ''/'' @ dropWhile (\<lambda>c. c = 47) path"
    by (simp add: replacer_def replacement_url_base_def lstrip_slash_def)
  have "\<not> prefix [47] (dropWhile (\<lambda>c. c = 47) path)"
  proof (cases "dropWhile (\<lambda>c. c = 47) path")
    case Nil
    show ?thesis unfolding Nil by simp
  next
    case (Cons x xs)
    then have "x \<noteq> 47"
      using hd_dropWhile[of "\<lambda>c. c = 47" path] by auto
    with Cons show ?thesis by simp
  qed
  then have "\<not> prefix (str ''https://'' @ d @ str ''//'') (fst (replacer d path made))"
    unfolding rep by (simp add: str_def)
  with m run[unfolded cls] rep show ?thesis
    by simp
qed

theorem captured_path_longest_run_stripped_witness:
  "match_here (jsdelivr_pattern (str ''alice'') (str ''myrepo'') (str ''main''))
       (str ''https://cdn.jsdelivr.net/gh/alice/myrepo@main//images/a.png) and more'')
     = Some (str ''/images/a.png'', str '') and more'')
   \<and> fst (replacer (str ''cdn.example.com'') (str ''/images/a.png'') 0)
     = str ''https://cdn.example.com/images/a.png''
   \<and> \<not> prefix (str ''https://'' @ str ''cdn.example.com'' @ str ''//'')
        (fst (replacer (str ''cdn.example.com'') (str ''/images/a.png'') 0))"
proof -
  have m: "match_here (jsdelivr_pattern (str ''alice'') (str ''myrepo'') (str ''main''))
       (str ''https://cdn.jsdelivr.net/gh/alice/myrepo@main//images/a.png) and more'')
     = Some (str ''/images/a.png'', str '') and more'')"
    by (simp add: match_here_def match_tail_def jsdelivr_pattern_def str_def path_char_def py_isspace_def)
  have a: "fst (replacer (str ''cdn.example.com'') (str ''/images/a.png'') 0)
       = str ''https://'' @ str ''cdn.example.com'' @ str ''/'' @ dropWhile (\<lambda>c. c = 47) (str ''/images/a.png'')"
    and b: "\<not> prefix (str ''https://'' @ str ''cdn.example.com'' @ str ''//'')
        (fst (replacer (str ''cdn.example.com'') (str ''/images/a.png'') 0))"
    using captured_path_longest_run_stripped[OF disjI1[OF refl] m, of "str ''cdn.example.com''" 0]
    by blast+
  have "str ''https://'' @ str ''cdn.example.com'' @ str ''/'' @ dropWhile (\<lambda>c. c = 47) (str ''/images/a.png'')
      = str ''https://cdn.example.com/images/a.png''"
    by (simp add: str_def)
  with a have a': "fst (replacer (str ''cdn.example.com'') (str ''/images/a.png'') 0)
      = str ''https://cdn.example.com/images/a.png''"
    by (rule trans)
  from m a' b show ?thesis
    by (intro conjI)
qed

lemma re_sub_no_match:
  "(\<And>i. match_here lit (drop i t) = None) \<Longrightarrow> re_sub lit d t made = (t, made)"
proof (induction t)
  case Nil
  show ?case by simp
next
  case (Cons c cs)
  have "match_here lit (drop 0 (c # cs)) = None"
    by (rule Cons.prems)
  then have here: "match_here lit (c # cs) = None"
    by simp
  have "match_here lit (drop i cs) = None" for i
    using Cons.prems[of "Suc i"] by simp
  then have "re_sub lit d cs made = (cs, made)"
    by (rule Cons.IH)
  with here show ?case
    by simp
qed

lemma match_here_sublist:
  assumes "match_here lit (drop i t) \<noteq> None"
  shows "sublist (str ''http'' @ lit) t \<or> sublist (str ''https'' @ lit) t"
proof -
  from assms obtain path rest where "match_here lit (drop i t) = Some (path, rest)"
    by auto
  then have "drop i t = str ''https'' @ lit @ path @ rest \<or> drop i t = str ''http'' @ lit @ path @ rest"
    by (blast dest: match_here_SomeD)
  then have "sublist (str ''https'' @ lit) (drop i t) \<or> sublist (str ''http'' @ lit) (drop i t)"
    by (metis append.assoc sublist_append_rightI)
  moreover have "sublist (drop i t) t"
    by simp
  ultimately show ?thesis
    by (meson sublist_order.order_trans)
qed

lemma re_sub_no_occurrence:
  assumes "\<not> sublist (str ''http'' @ lit) t" "\<not> sublist (str ''https'' @ lit) t"
  shows "re_sub lit d t made = (t, made)"
proof (rule re_sub_no_match)
  fix i
  show "match_here lit (drop i t) = None"
    using assms match_here_sublist[of lit i t] by blast
qed


section \<open>Properties of the per-file step\<close>

lemma write_file_written:
  "write_file w filepath content = Inr w' \<Longrightarrow> written w' = written w @ [filepath]"
  by (auto simp: write_file_def split: option.splits)

lemma write_file_frame:
  "write_file w filepath content = Inr w' \<Longrightarrow> p \<noteq> filepath \<Longrightarrow> files w' p = files w p"
  by (auto simp: write_file_def split: option.splits)

lemma write_file_data:
  "write_file w filepath content = Inr w' \<Longrightarrow> \<exists>f. files w' filepath = Some f \<and> data f = content"
  by (auto simp: write_file_def split: option.splits)

lemma replace_links_in_file_read:
  assumes "read_file w filepath = Inr original" "transform u r b d original = (content, made)"
  shows "replace_links_in_file filepath u r b d w =
     (if content \<noteq> original then
        (case write_file w filepath content of
           Inl e \<Rightarrow> (made, print (handler filepath e) w)
         | Inr w' \<Rightarrow> (made, print (Replaced made) w'))
      else (made, w))"
  using assms by (simp add: replace_links_in_file_def)

lemma replace_links_in_file_read_error:
  "read_file w filepath = Inl e \<Longrightarrow>
     replace_links_in_file filepath u r b d w = (0, print (handler filepath e) w)"
  by (simp add: replace_links_in_file_def)

text \<open>
  C6. A file whose transformed text equals its text is not opened for writing and the
  world stays as it was (its files, the log of writes and the output). A write happens
  only for a file that was read and whose transformed text differs from its text; it is a
  write of that file, and no other file ever changes.
\<close>

theorem no_spurious_write:
  "(read_file w filepath = Inr original \<and> fst (transform u r b d original) = original
      \<longrightarrow> snd (replace_links_in_file filepath u r b d w) = w)
   \<and> (written (snd (replace_links_in_file filepath u r b d w)) \<noteq> written w
      \<longrightarrow> (\<exists>original. read_file w filepath = Inr original
             \<and> fst (transform u r b d original) \<noteq> original
             \<and> written (snd (replace_links_in_file filepath u r b d w)) = written w @ [filepath]))
   \<and> (files (snd (replace_links_in_file filepath u r b d w)) filepath \<noteq> files w filepath
      \<longrightarrow> written (snd (replace_links_in_file filepath u r b d w)) \<noteq> written w)
   \<and> (p \<noteq> filepath \<longrightarrow> files (snd (replace_links_in_file filepath u r b d w)) p = files w p)"
proof (cases "read_file w filepath")
  case (Inl e)
  then show ?thesis
    by (simp add: replace_links_in_file_read_error print_def)
next
  case (Inr orig)
  obtain content made where t: "transform u r b d orig = (content, made)"
    by (cases "transform u r b d orig") auto
  show ?thesis
  proof (cases "content = orig")
    case True
    have "replace_links_in_file filepath u r b d w = (made, w)"
      using replace_links_in_file_read[OF Inr t] True by simp
    then show ?thesis
      by simp
  next
    case False
    then have ne: "fst (transform u r b d orig) \<noteq> orig"
      using t by simp
    show ?thesis
    proof (cases "write_file w filepath content")
      case (Inl e)
      have "replace_links_in_file filepath u r b d w = (made, print (handler filepath e) w)"
        using replace_links_in_file_read[OF Inr t] False Inl by simp
      then show ?thesis
        using Inr ne by (auto simp: print_def)
    next
      case wr: (Inr w')
      have res: "snd (replace_links_in_file filepath u r b d w) = print (Replaced made) w'"
        using replace_links_in_file_read[OF Inr t] False wr by simp
      have "written (print (Replaced made) w') = written w @ [filepath]"
        "files (print (Replaced made) w') = files w'"
        using write_file_written[OF wr] by (simp_all add: print_def)
      then show ?thesis
        unfolding res using Inr ne write_file_frame[OF wr, of p] by auto
    qed
  qed
qed

theorem no_spurious_write_witness:
  "snd (replace_links_in_file (str ''./a.md'') (str ''alice'') (str ''myrepo'') (str ''main'')
          (str ''cdn.example.com'') (example_world (str ''no link here'') None))
     = example_world (str ''no link here'') None
   \<and> written (snd (replace_links_in_file (str ''./a.md'') (str ''alice'') (str ''myrepo'') (str ''main'')
          (str ''cdn.example.com'')
          (example_world (str ''http://cdn.jsdelivr.net/gh/alice/myrepo@main/a.png'') None)))
     = [str ''./a.md'']
   \<and> fst (transform (str ''alice'') (str ''myrepo'') (str ''main'') (str ''cdn.example.com'')
          (str ''http://cdn.jsdelivr.net/gh/alice/myrepo@main/a.png''))
     \<noteq> str ''http://cdn.jsdelivr.net/gh/alice/myrepo@main/a.png''"
proof -
  let ?w = "example_world (str ''no link here'') None"
  let ?l = "str ''http://cdn.jsdelivr.net/gh/alice/myrepo@main/a.png''"
  let ?w2 = "example_world ?l None"
  let ?R = "\<lambda>w. replace_links_in_file (str ''./a.md'') (str ''alice'') (str ''myrepo'') (str ''main'')
          (str ''cdn.example.com'') w"
  have rd: "read_file ?w (str ''./a.md'') = Inr (str ''no link here'')"
    by (simp add: read_file_def example_world_def)
  have tr: "fst (transform (str ''alice'') (str ''myrepo'') (str ''main'') (str ''cdn.example.com'')
      (str ''no link here'')) = str ''no link here''"
    by (simp add: transform_def match_here_def str_def)
  have 1: "snd (?R ?w) = ?w"
    using no_spurious_write[of ?w "str ''./a.md''" "str ''no link here''" "str ''alice''" "str ''myrepo''"
        "str ''main''" "str ''cdn.example.com''"] rd tr
    by blast
  have wr: "written (snd (?R ?w2)) = [str ''./a.md'']"
    by (simp add: replace_links_in_file_def read_file_def write_file_def example_world_def print_def
        transform_def match_here_def match_tail_def jsdelivr_pattern_def github_raw_pattern_def
        replacer_def replacement_url_base_def lstrip_slash_def path_char_def py_isspace_def str_def)
  then have "written (snd (?R ?w2)) \<noteq> written ?w2"
    by (simp add: example_world_def)
  then obtain original where "read_file ?w2 (str ''./a.md'') = Inr original"
    and ne: "fst (transform (str ''alice'') (str ''myrepo'') (str ''main'') (str ''cdn.example.com'') original)
      \<noteq> original"
    using no_spurious_write[of ?w2 "str ''./a.md''" _ "str ''alice''" "str ''myrepo''"
        "str ''main''" "str ''cdn.example.com''"]
    by blast
  then have "original = ?l"
    by (simp add: read_file_def example_world_def)
  with ne 1 wr show ?thesis
    by simp
qed

section \<open>Properties of \<open>main\<close>\<close>

lemma walk_print [simp]: "walk (print l w) start_dir = walk w start_dir"
  by (simp add: walk_def print_def)

lemma summary_frame:
  "files (summary es start_dir (n, m, w)) = files w"
  "written (summary es start_dir (n, m, w)) = written w"
  "stderr (summary es start_dir (n, m, w)) = stderr w"
  by (simp_all add: summary_def print_def)








text \<open>
  C1, where the code departs from it. The directory \<open>.\<close> lists \<open>a.md\<close>, whose text has
  one matching link and which cannot be opened for writing, and \<open>notes.txt\<close>, which cannot
  be found when it is opened. Both errors are handled and the run goes on to the end with
  status 0 and no file changed; yet the one replacement counted in \<open>a.md\<close> before the
  write failed is in the total of the summary.
\<close>

theorem failed_write_is_counted:
  "main ascii_lower
     \<lparr>repo = str ''alice/myrepo@main'', domain = str ''cdn.example.com'', directory = str ''.'',
      extensions = str ''.md,.txt''\<rparr>
     (example_world (str ''see https://cdn.jsdelivr.net/gh/alice/myrepo@main/a.png'') (Some IOError))
   = (0, (example_world (str ''see https://cdn.jsdelivr.net/gh/alice/myrepo@main/a.png'') (Some IOError))
        \<lparr>stdout :=
           [Starting (str ''alice/myrepo@main'') (str ''cdn.example.com'') (str ''.'') [str ''.md'', str ''.txt''],
            Processing (str ''./a.md''), ErrReadWrite (str ''./a.md''),
            Processing (str ''./notes.txt''), ErrFileNotFound (str ''./notes.txt''),
            ScanComplete, ProcessedFiles 2, MadeReplacements 1]\<rparr>)"
  by (simp add: main_def parse_repo_string_def re_match_repo_def file_extensions_def strip_def
      ascii_lower_def walk_loop_def walk_def visit_dir_def visit_file_def endswith_def endswith1_def
      os_path_join_def summary_def example_world_def
      replace_links_in_file_def read_file_def write_file_def handler_def print_def
      transform_def match_here_def match_tail_def jsdelivr_pattern_def github_raw_pattern_def
      replacer_def replacement_url_base_def lstrip_slash_def path_char_def py_isspace_def str_def)

section \<open>The substitution on a text in parts\<close>

declare re_sub.simps [simp del]

lemma match_here_shorter:
  assumes "match_here lit t = Some (path, rest)"
  shows "length rest < length t"
  using match_here_SomeD[OF assms] by (auto simp: str_def)

lemma match_here_Some_iff:
  assumes "lit \<noteq> []" "hd lit \<noteq> 115"
  shows "match_here lit t = Some (path, rest) \<longleftrightarrow>
     (t = str ''https'' @ lit @ path @ rest \<or> t = str ''http'' @ lit @ path @ rest)
     \<and> path \<noteq> [] \<and> (\<forall>c\<in>set path. path_char c) \<and> (rest = [] \<or> \<not> path_char (hd rest))"
  using match_here_SomeD[of lit t path rest] match_here_https[of path rest lit]
    match_here_http[of path rest lit] assms
  by blast

lemma re_sub_Some:
  "match_here lit t = Some (path, rest) \<Longrightarrow>
     re_sub lit d t made =
       (str ''https://'' @ d @ str ''/'' @ lstrip_slash path @ fst (re_sub lit d rest (made + 1)),
        snd (re_sub lit d rest (made + 1)))"
  by (cases t)
    (auto simp: re_sub.simps match_here_def str_def replacer_def replacement_url_base_def split: prod.splits)

lemma re_sub_None:
  "match_here lit (c # cs) = None \<Longrightarrow>
     re_sub lit d (c # cs) made = (c # fst (re_sub lit d cs made), snd (re_sub lit d cs made))"
  by (simp add: re_sub.simps split: prod.splits)

lemma re_sub_made:
  "re_sub lit d t made = (fst (re_sub lit d t 0), made + snd (re_sub lit d t 0))"
proof (induction "length t" arbitrary: t made rule: less_induct)
  case less
  show ?case
  proof (cases t)
    case Nil
    then show ?thesis by (simp add: re_sub.simps)
  next
    case (Cons c cs)
    show ?thesis
    proof (cases "match_here lit t")
      case None
      have "length cs < length t"
        using Cons by simp
      from less[OF this, of made] None show ?thesis
        unfolding Cons by (simp add: re_sub_None)
    next
      case (Some m)
      obtain path rest where m: "m = (path, rest)"
        by (cases m) auto
      have "length rest < length t"
        using Some m by (auto dest: match_here_shorter)
      from less[OF this, of "made + 1"] less[OF this, of "0 + 1"] show ?thesis
        using Some m by (simp add: re_sub_Some)
    qed
  qed
qed

lemma transform_eq:
  "transform u r b d t =
     (fst (re_sub (github_raw_pattern u r b) d (fst (re_sub (jsdelivr_pattern u r b) d t 0)) 0),
      snd (re_sub (jsdelivr_pattern u r b) d t 0)
        + snd (re_sub (github_raw_pattern u r b) d (fst (re_sub (jsdelivr_pattern u r b) d t 0)) 0))"
proof -
  obtain t1 m1 where 1: "re_sub (jsdelivr_pattern u r b) d t 0 = (t1, m1)"
    by (cases "re_sub (jsdelivr_pattern u r b) d t 0") auto
  show ?thesis
    unfolding transform_def 1 using re_sub_made[of "github_raw_pattern u r b" d t1 m1] by simp
qed

text \<open>
  If every match that begins in the first part of a text ends in it, the substitution
  treats the two parts one after the other.
\<close>

lemma re_sub_split:
  assumes lit: "lit \<noteq> []" "hd lit \<noteq> 115"
    and "\<And>i path rest. i < length pre \<Longrightarrow> match_here lit (drop i (pre @ t)) = Some (path, rest)
          \<Longrightarrow> length t \<le> length rest"
  shows "re_sub lit d (pre @ t) 0 =
     (fst (re_sub lit d pre 0) @ fst (re_sub lit d t 0), snd (re_sub lit d pre 0) + snd (re_sub lit d t 0))"
  using assms(3)
proof (induction "length pre" arbitrary: pre rule: less_induct)
  case less
  show ?case
  proof (cases pre)
    case Nil
    then show ?thesis by (simp add: re_sub.simps)
  next
    case (Cons c cs)
    show ?thesis
    proof (cases "match_here lit (pre @ t)")
      case None
      have "match_here lit pre = None"
      proof (rule ccontr)
        assume "match_here lit pre \<noteq> None"
        then obtain path rest where "match_here lit pre = Some (path, rest)"
          by auto
        then have *: "(pre = str ''https'' @ lit @ path @ rest \<or> pre = str ''http'' @ lit @ path @ rest)
            \<and> path \<noteq> [] \<and> (\<forall>c\<in>set path. path_char c)"
          by (auto dest: match_here_SomeD)
        define path' where "path' = takeWhile path_char (path @ rest @ t)"
        define rest' where "rest' = dropWhile path_char (path @ rest @ t)"
        have pr: "path @ rest @ t = path' @ rest'"
          by (simp add: path'_def rest'_def)
        have "path' \<noteq> []"
          using * by (cases path) (auto simp: path'_def)
        moreover have "\<forall>c\<in>set path'. path_char c"
          by (auto simp: path'_def dest: set_takeWhileD)
        moreover have "rest' = [] \<or> \<not> path_char (hd rest')"
          using hd_dropWhile[of path_char "path @ rest @ t"] by (auto simp: rest'_def)
        moreover have "pre @ t = str ''https'' @ lit @ path' @ rest' \<or> pre @ t = str ''http'' @ lit @ path' @ rest'"
          using * pr by auto
        ultimately have "match_here lit (pre @ t) = Some (path', rest')"
          using match_here_Some_iff[OF lit] by blast
        with None show False by simp
      qed
      moreover have "re_sub lit d (cs @ t) 0 =
          (fst (re_sub lit d cs 0) @ fst (re_sub lit d t 0), snd (re_sub lit d cs 0) + snd (re_sub lit d t 0))"
      proof (rule less.hyps)
        show "length cs < length pre"
          using Cons by simp
        fix i path rest
        assume "i < length cs" "match_here lit (drop i (cs @ t)) = Some (path, rest)"
        then show "length t \<le> length rest"
          using less.prems[of "Suc i" path rest] Cons by simp
      qed
      ultimately show ?thesis
        using None unfolding Cons by (simp add: re_sub_None)
    next
      case (Some m)
      obtain path rest where m: "m = (path, rest)"
        by (cases m) auto
      have len: "length t \<le> length rest"
        using less.prems[of 0 path rest] Some m Cons by simp
      note sd = match_here_SomeD[OF Some[unfolded m]]
      from sd obtain scheme where scheme: "scheme = str ''https'' \<or> scheme = str ''http''"
        and whole: "pre @ t = (scheme @ lit @ path) @ rest"
        by auto
      define w where "w = scheme @ lit @ path"
      have "pre @ t = w @ rest"
        using whole by (simp add: w_def)
      moreover have "length rest = length (pre @ t) - length w"
        using calculation by (metis add_diff_cancel_left' length_append)
      ultimately obtain rest' where rest': "rest = rest' @ t" and pre: "pre = w @ rest'"
        using len by (auto simp: append_eq_append_conv2)
      have "rest' = [] \<or> \<not> path_char (hd rest')"
        using sd rest' by (cases rest') auto
      moreover have "pre = str ''https'' @ lit @ path @ rest' \<or> pre = str ''http'' @ lit @ path @ rest'"
        using scheme pre by (auto simp: w_def)
      ultimately have mp: "match_here lit pre = Some (path, rest')"
        using sd match_here_Some_iff[OF lit, of pre path rest'] by blast
      have "re_sub lit d (rest' @ t) 0 =
          (fst (re_sub lit d rest' 0) @ fst (re_sub lit d t 0), snd (re_sub lit d rest' 0) + snd (re_sub lit d t 0))"
      proof (rule less.hyps)
        show "length rest' < length pre"
          using mp by (rule match_here_shorter)
        fix i path2 rest2
        assume "i < length rest'" "match_here lit (drop i (rest' @ t)) = Some (path2, rest2)"
        then show "length t \<le> length rest2"
          using less.prems[of "length w + i" path2 rest2] pre by simp
      qed
      then show ?thesis
        using Some m mp rest' re_sub_made[of lit d "rest' @ t" 1] re_sub_made[of lit d rest' 1]
        by (simp add: re_sub_Some)
    qed
  qed
qed

lemma scheme_path_chars:
  "\<forall>c\<in>set (str ''http''). path_char c" "\<forall>c\<in>set (str ''https''). path_char c"
  by (simp_all add: str_def path_char_def py_isspace_def)

lemma pattern_path_chars:
  assumes "\<forall>c\<in>set u. path_char c" "\<forall>c\<in>set r. path_char c" "\<forall>c\<in>set b. path_char c"
  shows "\<forall>c\<in>set (jsdelivr_pattern u r b). path_char c" "\<forall>c\<in>set (github_raw_pattern u r b). path_char c"
proof -
  have lits: "\<forall>c\<in>set (str ''://cdn.jsdelivr.net/gh/''). path_char c"
    "\<forall>c\<in>set (str ''://raw.githubusercontent.com/''). path_char c"
    "\<forall>c\<in>set (str ''/''). path_char c" "\<forall>c\<in>set (str ''@''). path_char c"
    by (simp_all add: str_def path_char_def py_isspace_def)
  show "\<forall>c\<in>set (jsdelivr_pattern u r b). path_char c"
    unfolding jsdelivr_pattern_def using assms lits by (simp add: ball_Un)
  show "\<forall>c\<in>set (github_raw_pattern u r b). path_char c"
    unfolding github_raw_pattern_def using assms lits by (simp add: ball_Un)
qed

text \<open>A match whose literal part has path characters only is a run of path characters.\<close>

lemma match_run:
  assumes "\<forall>c\<in>set lit. path_char c" "match_here lit t = Some (path, rest)"
  obtains w where "t = w @ rest" "w \<noteq> []" "\<forall>c\<in>set w. path_char c"
proof -
  note sd = match_here_SomeD[OF assms(2)]
  from sd obtain scheme where "scheme = str ''https'' \<or> scheme = str ''http''"
    and "t = (scheme @ lit @ path) @ rest"
    by auto
  moreover from this have "\<forall>c\<in>set (scheme @ lit @ path). path_char c"
    using assms(1) sd scheme_path_chars by auto
  moreover have "scheme @ lit @ path \<noteq> []"
    using sd by simp
  ultimately show ?thesis
    using that by blast
qed

lemma re_sub_boundary:
  assumes lit: "lit \<noteq> []" "hd lit \<noteq> 115" "\<forall>c\<in>set lit. path_char c"
    and bd: "pre = [] \<or> t = [] \<or> \<not> path_char (last pre) \<or> \<not> path_char (hd t)"
  shows "re_sub lit d (pre @ t) 0 =
     (fst (re_sub lit d pre 0) @ fst (re_sub lit d t 0), snd (re_sub lit d pre 0) + snd (re_sub lit d t 0))"
proof (rule re_sub_split[OF lit(1,2)])
  fix i path rest
  assume i: "i < length pre" and m: "match_here lit (drop i (pre @ t)) = Some (path, rest)"
  from match_run[OF lit(3) m] obtain w where w: "drop i (pre @ t) = w @ rest" "w \<noteq> []" "\<forall>c\<in>set w. path_char c"
    by blast
  show "length t \<le> length rest"
  proof (rule ccontr)
    assume "\<not> length t \<le> length rest"
    then have short: "length rest < length t"
      by simp
    have eq: "drop i pre @ t = w @ rest"
      using w(1) i by simp
    then obtain z where z: "w = drop i pre @ z" "t = z @ rest" "z \<noteq> []"
      using short by (auto simp: append_eq_append_conv2)
    have "drop i pre \<noteq> []"
      using i by simp
    then have "last (drop i pre) \<in> set (drop i pre)"
      by (rule last_in_set)
    moreover have "last (drop i pre) = last pre"
      using i by (rule last_drop)
    ultimately have "last pre \<in> set w"
      using z(1) by simp
    moreover have "hd t \<in> set w"
      using z by (cases z) auto
    moreover have "pre \<noteq> []" "t \<noteq> []"
      using i z by auto
    ultimately show False
      using bd w(3) by blast
  qed
qed

lemma match_here_delim: "\<not> path_char dl \<Longrightarrow> match_here lit (dl # t) = None"
proof (rule ccontr)
  assume dl: "\<not> path_char dl" and "match_here lit (dl # t) \<noteq> None"
  then obtain path rest where "match_here lit (dl # t) = Some (path, rest)"
    by auto
  then have "dl = 104"
    by (auto dest!: match_here_SomeD simp: str_def)
  with dl show False
    by (simp add: path_char_def py_isspace_def)
qed

lemma re_sub_cons_delim:
  "\<not> path_char dl \<Longrightarrow>
     re_sub lit d (dl # t) 0 = (dl # fst (re_sub lit d t 0), snd (re_sub lit d t 0))"
  by (simp add: match_here_delim re_sub_None)

lemma re_sub_hd:
  assumes "t = [] \<or> \<not> path_char (hd t)"
  shows "fst (re_sub lit d t 0) = [] \<or> \<not> path_char (hd (fst (re_sub lit d t 0)))"
proof (cases t)
  case Nil
  then show ?thesis by (simp add: re_sub.simps)
next
  case (Cons c cs)
  with assms show ?thesis
    by (simp add: re_sub_cons_delim)
qed

lemma re_sub_last:
  assumes lit: "lit \<noteq> []" "hd lit \<noteq> 115" "\<forall>c\<in>set lit. path_char c"
    and "t = [] \<or> \<not> path_char (last t)"
  shows "fst (re_sub lit d t 0) = [] \<or> \<not> path_char (last (fst (re_sub lit d t 0)))"
proof (cases t rule: rev_cases)
  case Nil
  then show ?thesis by (simp add: re_sub.simps)
next
  case (snoc k dl)
  with assms have dl: "\<not> path_char dl"
    by simp
  have "re_sub lit d (k @ [dl]) 0 =
     (fst (re_sub lit d k 0) @ fst (re_sub lit d [dl] 0), snd (re_sub lit d k 0) + snd (re_sub lit d [dl] 0))"
    using dl by (intro re_sub_boundary[OF lit]) simp
  moreover have "fst (re_sub lit d [dl] 0) = [dl]"
    using dl by (simp add: re_sub_cons_delim re_sub.simps(1))
  ultimately show ?thesis
    using snoc dl by simp
qed

lemma transform_boundary:
  assumes urb: "\<forall>c\<in>set u. path_char c" "\<forall>c\<in>set r. path_char c" "\<forall>c\<in>set b. path_char c"
    and bd: "pre = [] \<or> \<not> path_char (last pre) \<or> t = [] \<or> \<not> path_char (hd t)"
  shows "transform u r b d (pre @ t) =
     (fst (transform u r b d pre) @ fst (transform u r b d t),
      snd (transform u r b d pre) + snd (transform u r b d t))"
proof -
  let ?j = "jsdelivr_pattern u r b" and ?g = "github_raw_pattern u r b"
  note pc = pattern_path_chars[OF urb]
  have 1: "re_sub ?j d (pre @ t) 0 =
     (fst (re_sub ?j d pre 0) @ fst (re_sub ?j d t 0), snd (re_sub ?j d pre 0) + snd (re_sub ?j d t 0))"
    using bd by (intro re_sub_boundary pattern_hd pc) blast
  have "fst (re_sub ?j d pre 0) = [] \<or> \<not> path_char (last (fst (re_sub ?j d pre 0)))
      \<or> fst (re_sub ?j d t 0) = [] \<or> \<not> path_char (hd (fst (re_sub ?j d t 0)))"
  proof -
    consider "pre = [] \<or> \<not> path_char (last pre)" | "t = [] \<or> \<not> path_char (hd t)"
      using bd by blast
    then show ?thesis
    proof cases
      case 1
      from re_sub_last[OF pattern_hd(1,2) pc(1) this, of d] show ?thesis
        by blast
    next
      case 2
      from re_sub_hd[OF this, of ?j d] show ?thesis
        by blast
    qed
  qed
  then have 2: "re_sub ?g d (fst (re_sub ?j d pre 0) @ fst (re_sub ?j d t 0)) 0 =
     (fst (re_sub ?g d (fst (re_sub ?j d pre 0)) 0) @ fst (re_sub ?g d (fst (re_sub ?j d t 0)) 0),
      snd (re_sub ?g d (fst (re_sub ?j d pre 0)) 0) + snd (re_sub ?g d (fst (re_sub ?j d t 0)) 0))"
    by (intro re_sub_boundary pattern_hd pc) blast
  show ?thesis
    by (simp add: transform_eq 1 2)
qed

lemma match_here_not_h: "c \<noteq> 104 \<Longrightarrow> match_here lit (c # t) = None"
  by (simp add: match_here_def str_def)

lemma re_sub_http_prefix:
  "\<exists>y. fst (re_sub lit d (str ''http'' @ x) 0) = str ''http'' @ y"
proof (cases "match_here lit (str ''http'' @ x)")
  case (Some m)
  obtain path rest where "m = (path, rest)"
    by (cases m) auto
  with Some have "fst (re_sub lit d (str ''http'' @ x) 0)
      = str ''https://'' @ d @ str ''/'' @ lstrip_slash path @ fst (re_sub lit d rest (0 + 1))"
    by (simp add: re_sub_Some)
  then show ?thesis
    by (simp add: str_def)
next
  case None
  then have "match_here lit (104 # 116 # 116 # 112 # x) = None"
    by (simp add: str_def)
  then have "fst (re_sub lit d (104 # 116 # 116 # 112 # x) 0) = 104 # 116 # 116 # 112 # fst (re_sub lit d x 0)"
    by (simp add: re_sub_None match_here_not_h)
  then show ?thesis
    by (simp add: str_def)
qed

lemma http_not_glued:
  fixes z :: pystr
  assumes "z \<noteq> []" "\<not> sublist [104, 116, 116, 112] z"
  shows "z @ 104 # 116 # 116 # 112 # x \<noteq> 104 # 116 # 116 # 112 # y"
proof (cases z)
  case Nil
  with assms show ?thesis by simp
next
  case 1: (Cons c1 z1)
  show ?thesis
  proof (cases z1)
    case Nil
    with 1 show ?thesis by simp
  next
    case 2: (Cons c2 z2)
    show ?thesis
    proof (cases z2)
      case Nil
      with 1 2 show ?thesis by simp
    next
      case 3: (Cons c3 z3)
      show ?thesis
      proof (cases z3)
        case Nil
        with 1 2 3 show ?thesis by simp
      next
        case 4: (Cons c4 z4)
        have "z = [c1, c2, c3, c4] @ z4"
          by (simp add: 1 2 3 4)
        with assms(2) have "[c1, c2, c3, c4] \<noteq> [104, 116, 116, 112]"
          by (metis sublist_append_rightI)
        then show ?thesis
          by (auto simp: 1 2 3 4)
      qed
    qed
  qed
qed

lemma no_http_straddle:
  assumes "\<not> sublist (str ''http'') a" "i < length a"
  shows "match_here lit (drop i (a @ str ''http'' @ x)) = None"
proof (rule ccontr)
  assume "match_here lit (drop i (a @ str ''http'' @ x)) \<noteq> None"
  then obtain path rest where m: "match_here lit (drop i (a @ str ''http'' @ x)) = Some (path, rest)"
    by auto
  have http: "str ''http'' = [104, 116, 116, 112]" and https: "str ''https'' = [104, 116, 116, 112, 115]"
    by (simp_all add: str_def)
  define z where "z = drop i a"
  have dz: "drop i (a @ str ''http'' @ x) = z @ str ''http'' @ x"
    using assms(2) by (simp add: z_def)
  from match_here_SomeD[OF m] have "z @ str ''http'' @ x = str ''https'' @ lit @ path @ rest
      \<or> z @ str ''http'' @ x = str ''http'' @ lit @ path @ rest"
    unfolding dz by blast
  then have "\<exists>y. z @ 104 # 116 # 116 # 112 # x = 104 # 116 # 116 # 112 # y"
    unfolding http https by auto
  moreover have "z \<noteq> []"
    using assms(2) by (simp add: z_def)
  moreover have "\<not> sublist [104, 116, 116, 112] z"
  proof
    assume "sublist [104, 116, 116, 112] z"
    moreover have "sublist z a"
      by (simp add: z_def)
    ultimately have "sublist [104, 116, 116, 112] a"
      by (rule sublist_order.order_trans)
    with assms(1) show False
      by (simp add: http)
  qed
  ultimately show False
    using http_not_glued by blast
qed

lemma re_sub_clean_prefix:
  assumes lit: "lit \<noteq> []" "hd lit \<noteq> 115" and a: "\<not> sublist (str ''http'') a"
  shows "re_sub lit d (a @ str ''http'' @ x) 0 =
     (a @ fst (re_sub lit d (str ''http'' @ x) 0), snd (re_sub lit d (str ''http'' @ x) 0))"
proof -
  have "re_sub lit d (a @ str ''http'' @ x) 0 =
     (fst (re_sub lit d a 0) @ fst (re_sub lit d (str ''http'' @ x) 0),
      snd (re_sub lit d a 0) + snd (re_sub lit d (str ''http'' @ x) 0))"
  proof (rule re_sub_split[OF lit])
    fix i path rest
    assume "i < length a" "match_here lit (drop i (a @ str ''http'' @ x)) = Some (path, rest)"
    then show "length (str ''http'' @ x) \<le> length rest"
      using no_http_straddle[OF a, of i lit x] by simp
  qed
  moreover have "\<not> sublist (str ''http'' @ lit) a" "\<not> sublist (str ''https'' @ lit) a"
    using a sublist_order.order_trans[of "str ''http''" _ a] by (auto simp: str_def sublist_def)
  then have "re_sub lit d a 0 = (a, 0)"
    by (rule re_sub_no_occurrence)
  ultimately show ?thesis
    by simp
qed

lemma re_sub_url_head:
  assumes lit: "lit \<noteq> []" "hd lit \<noteq> 115"
    and "scheme = str ''http'' \<or> scheme = str ''https''"
    and "path \<noteq> []" "\<forall>c\<in>set path. path_char c" "post = [] \<or> \<not> path_char (hd post)"
  shows "re_sub lit d (scheme @ lit @ path @ post) 0 =
     (str ''https://'' @ d @ str ''/'' @ lstrip_slash path @ fst (re_sub lit d post 0),
      1 + snd (re_sub lit d post 0))"
proof -
  have "match_here lit (scheme @ lit @ path @ post) = Some (path, post)"
    using assms match_here_Some_iff[OF lit, of "scheme @ lit @ path @ post" path post] by blast
  then show ?thesis
    using re_sub_made[of lit d post 1] by (simp add: re_sub_Some)
qed

section \<open>Links that are rewritten\<close>

lemma not_sublist_ext: "\<not> sublist l t \<Longrightarrow> \<not> sublist (s @ l) t"
  using sublist_order.order_trans[of l "s @ l" t] by auto

lemma re_sub_no_lit:
  "\<not> sublist lit t \<Longrightarrow> re_sub lit d t 0 = (t, 0)"
  by (intro re_sub_no_occurrence not_sublist_ext)

lemma scheme_http:
  "scheme = str ''http'' \<or> scheme = str ''https'' \<Longrightarrow> \<exists>x. scheme @ y = str ''http'' @ x"
  by (auto simp: str_def)

lemma transform_jsdelivr_core:
  assumes urb: "\<forall>c\<in>set u. path_char c" "\<forall>c\<in>set r. path_char c" "\<forall>c\<in>set b. path_char c"
    and scheme: "scheme = str ''http'' \<or> scheme = str ''https''"
    and path: "path \<noteq> []" "\<forall>c\<in>set path. path_char c"
    and a: "\<not> sublist (str ''http'') a"
    and post: "post = [] \<or> \<not> path_char (hd post)"
    and clean: "\<not> sublist (github_raw_pattern u r b) (str ''https://'' @ d @ str ''/'' @ lstrip_slash path)"
  shows "transform u r b d (a @ scheme @ jsdelivr_pattern u r b @ path @ post) =
     (a @ str ''https://'' @ d @ str ''/'' @ lstrip_slash path @ fst (transform u r b d post),
      1 + snd (transform u r b d post))"
proof -
  let ?j = "jsdelivr_pattern u r b" and ?g = "github_raw_pattern u r b"
  let ?R = "str ''https://'' @ d @ str ''/'' @ lstrip_slash path"
  let ?o1 = "fst (re_sub ?j d post 0)"
  note pc = pattern_path_chars[OF urb]
  note jh = pattern_hd(1,2)[of u r b] and gh = pattern_hd(3,4)[of u r b]
  obtain x where x: "scheme @ ?j @ path @ post = str ''http'' @ x"
    using scheme_http[OF scheme] by blast
  have "re_sub ?j d (a @ str ''http'' @ x) 0 =
      (a @ fst (re_sub ?j d (str ''http'' @ x) 0), snd (re_sub ?j d (str ''http'' @ x) 0))"
    by (rule re_sub_clean_prefix[OF jh a])
  moreover have "re_sub ?j d (scheme @ ?j @ path @ post) 0 = (?R @ ?o1, 1 + snd (re_sub ?j d post 0))"
    using re_sub_url_head[OF jh scheme path post, of d] by simp
  ultimately have p1: "re_sub ?j d (a @ scheme @ ?j @ path @ post) 0 = (a @ ?R @ ?o1, 1 + snd (re_sub ?j d post 0))"
    unfolding x by simp
  have o1: "?o1 = [] \<or> \<not> path_char (hd ?o1)"
    using post by (rule re_sub_hd)
  obtain x2 where x2: "?R @ ?o1 = str ''http'' @ x2"
    by (auto simp: str_def)
  have "re_sub ?g d (a @ str ''http'' @ x2) 0 =
      (a @ fst (re_sub ?g d (str ''http'' @ x2) 0), snd (re_sub ?g d (str ''http'' @ x2) 0))"
    by (rule re_sub_clean_prefix[OF gh a])
  moreover have "re_sub ?g d (?R @ ?o1) 0 =
      (fst (re_sub ?g d ?R 0) @ fst (re_sub ?g d ?o1 0), snd (re_sub ?g d ?R 0) + snd (re_sub ?g d ?o1 0))"
    using o1 by (intro re_sub_boundary pattern_hd pc) blast
  moreover have "re_sub ?g d ?R 0 = (?R, 0)"
    using clean by (rule re_sub_no_lit)
  ultimately have p2: "re_sub ?g d (a @ ?R @ ?o1) 0 = (a @ ?R @ fst (re_sub ?g d ?o1 0), snd (re_sub ?g d ?o1 0))"
    unfolding x2[symmetric] by simp
  show ?thesis
    unfolding transform_eq[of u r b d "a @ scheme @ ?j @ path @ post"] transform_eq[of u r b d post] p1
    using p2 by simp
qed

lemma transform_github_raw_core:
  assumes urb: "\<forall>c\<in>set u. path_char c" "\<forall>c\<in>set r. path_char c" "\<forall>c\<in>set b. path_char c"
    and scheme: "scheme = str ''http'' \<or> scheme = str ''https''"
    and path: "path \<noteq> []" "\<forall>c\<in>set path. path_char c"
    and a: "\<not> sublist (str ''http'') a"
    and post: "post = [] \<or> \<not> path_char (hd post)"
    and clean: "\<not> sublist (jsdelivr_pattern u r b) (scheme @ github_raw_pattern u r b @ path)"
  shows "transform u r b d (a @ scheme @ github_raw_pattern u r b @ path @ post) =
     (a @ str ''https://'' @ d @ str ''/'' @ lstrip_slash path @ fst (transform u r b d post),
      1 + snd (transform u r b d post))"
proof -
  let ?j = "jsdelivr_pattern u r b" and ?g = "github_raw_pattern u r b"
  let ?X = "scheme @ ?g @ path"
  let ?R = "str ''https://'' @ d @ str ''/'' @ lstrip_slash path"
  let ?o1 = "fst (re_sub ?j d post 0)"
  note pc = pattern_path_chars[OF urb]
  note jh = pattern_hd(1,2)[of u r b] and gh = pattern_hd(3,4)[of u r b]
  obtain x where x: "?X @ post = str ''http'' @ x"
    using scheme_http[OF scheme, of "?g @ path @ post"] by auto
  have "re_sub ?j d (a @ str ''http'' @ x) 0 =
      (a @ fst (re_sub ?j d (str ''http'' @ x) 0), snd (re_sub ?j d (str ''http'' @ x) 0))"
    by (rule re_sub_clean_prefix[OF jh a])
  moreover have "re_sub ?j d (?X @ post) 0 =
      (fst (re_sub ?j d ?X 0) @ ?o1, snd (re_sub ?j d ?X 0) + snd (re_sub ?j d post 0))"
    using post by (intro re_sub_boundary pattern_hd pc) blast
  moreover have "re_sub ?j d ?X 0 = (?X, 0)"
    using clean by (rule re_sub_no_lit)
  ultimately have p1: "re_sub ?j d (a @ ?X @ post) 0 = (a @ ?X @ ?o1, snd (re_sub ?j d post 0))"
    unfolding x[symmetric] by simp
  have o1: "?o1 = [] \<or> \<not> path_char (hd ?o1)"
    using post by (rule re_sub_hd)
  obtain x2 where x2: "scheme @ ?g @ path @ ?o1 = str ''http'' @ x2"
    using scheme_http[OF scheme] by blast
  have "re_sub ?g d (a @ str ''http'' @ x2) 0 =
      (a @ fst (re_sub ?g d (str ''http'' @ x2) 0), snd (re_sub ?g d (str ''http'' @ x2) 0))"
    by (rule re_sub_clean_prefix[OF gh a])
  moreover have "re_sub ?g d (scheme @ ?g @ path @ ?o1) 0 = (?R @ fst (re_sub ?g d ?o1 0), 1 + snd (re_sub ?g d ?o1 0))"
    using re_sub_url_head[OF gh scheme path o1, of d] by simp
  ultimately have p2: "re_sub ?g d (a @ ?X @ ?o1) 0 = (a @ ?R @ fst (re_sub ?g d ?o1 0), 1 + snd (re_sub ?g d ?o1 0))"
    unfolding x2[symmetric] by simp
  have p1': "re_sub ?j d (a @ scheme @ ?g @ path @ post) 0 = (a @ ?X @ ?o1, snd (re_sub ?j d post 0))"
    using p1 by simp
  show ?thesis
    unfolding transform_eq[of u r b d "a @ scheme @ ?g @ path @ post"] transform_eq[of u r b d post] p1'
    using p2 by simp
qed

text \<open>
  C2, as amended. With repo \<open>alice/myrepo@main\<close> and domain \<open>cdn.example.com\<close> the two
  links of the specification are rewritten as it says. In general, for an owner, a name
  and a branch made of path characters: take a link of one of the two shapes, \<open>http\<close> or
  \<open>https\<close>, the literal part and a path that is a run of path characters, followed by
  the end of the text or by a character that no path can contain; before it, a text
  \<open>a\<close> in which \<open>http\<close> does not occur, and before that nothing or a text \<open>pre\<close> that
  ends with a character that no path can contain. If the link and its replacement hold no
  link of the other shape, the link becomes \<open>https://\<close>, the domain, \<open>/\<close> and its
  path without leading slashes; \<open>a\<close> stays; \<open>pre\<close> and the text after the link are
  transformed as they would be on their own, and the counts add up.
\<close>

theorem links_rewritten:
  "transform (str ''alice'') (str ''myrepo'') (str ''main'') (str ''cdn.example.com'')
       (str ''https://cdn.jsdelivr.net/gh/alice/myrepo@main/images/a.png'')
     = (str ''https://cdn.example.com/images/a.png'', 1)
   \<and> transform (str ''alice'') (str ''myrepo'') (str ''main'') (str ''cdn.example.com'')
       (str ''https://raw.githubusercontent.com/alice/myrepo/main/docs/b.txt'')
     = (str ''https://cdn.example.com/docs/b.txt'', 1)
   \<and> ((\<forall>c\<in>set u. path_char c) \<and> (\<forall>c\<in>set r. path_char c) \<and> (\<forall>c\<in>set b. path_char c)
       \<and> (scheme = str ''http'' \<or> scheme = str ''https'')
       \<and> path \<noteq> [] \<and> (\<forall>c\<in>set path. path_char c)
       \<and> (pre = [] \<or> \<not> path_char (last pre)) \<and> \<not> sublist (str ''http'') a
       \<and> (post = [] \<or> \<not> path_char (hd post)) \<longrightarrow>
        (\<not> sublist (github_raw_pattern u r b) (str ''https://'' @ d @ str ''/'' @ lstrip_slash path) \<longrightarrow>
           transform u r b d (pre @ a @ scheme @ jsdelivr_pattern u r b @ path @ post)
             = (fst (transform u r b d pre) @ a @ str ''https://'' @ d @ str ''/'' @ lstrip_slash path
                  @ fst (transform u r b d post),
                snd (transform u r b d pre) + 1 + snd (transform u r b d post)))
        \<and> (\<not> sublist (jsdelivr_pattern u r b) (scheme @ github_raw_pattern u r b @ path) \<longrightarrow>
           transform u r b d (pre @ a @ scheme @ github_raw_pattern u r b @ path @ post)
             = (fst (transform u r b d pre) @ a @ str ''https://'' @ d @ str ''/'' @ lstrip_slash path
                  @ fst (transform u r b d post),
                snd (transform u r b d pre) + 1 + snd (transform u r b d post))))"
proof (intro conjI impI; (elim conjE)?)
  show "transform (str ''alice'') (str ''myrepo'') (str ''main'') (str ''cdn.example.com'')
       (str ''https://cdn.jsdelivr.net/gh/alice/myrepo@main/images/a.png'')
     = (str ''https://cdn.example.com/images/a.png'', 1)"
    by (simp add: transform_def re_sub.simps match_here_def match_tail_def jsdelivr_pattern_def
        github_raw_pattern_def replacer_def replacement_url_base_def lstrip_slash_def path_char_def
        py_isspace_def str_def)
  show "transform (str ''alice'') (str ''myrepo'') (str ''main'') (str ''cdn.example.com'')
       (str ''https://raw.githubusercontent.com/alice/myrepo/main/docs/b.txt'')
     = (str ''https://cdn.example.com/docs/b.txt'', 1)"
    by (simp add: transform_def re_sub.simps match_here_def match_tail_def jsdelivr_pattern_def
        github_raw_pattern_def replacer_def replacement_url_base_def lstrip_slash_def path_char_def
        py_isspace_def str_def)
next
  assume h: "\<forall>c\<in>set u. path_char c" "\<forall>c\<in>set r. path_char c" "\<forall>c\<in>set b. path_char c"
    "scheme = str ''http'' \<or> scheme = str ''https''" "path \<noteq> []" "\<forall>c\<in>set path. path_char c"
    "\<not> sublist (str ''http'') a" "post = [] \<or> \<not> path_char (hd post)"
    and pre: "pre = [] \<or> \<not> path_char (last pre)"
    and clean: "\<not> sublist (github_raw_pattern u r b) (str ''https://'' @ d @ str ''/'' @ lstrip_slash path)"
  have "transform u r b d (pre @ (a @ scheme @ jsdelivr_pattern u r b @ path @ post)) =
     (fst (transform u r b d pre) @ fst (transform u r b d (a @ scheme @ jsdelivr_pattern u r b @ path @ post)),
      snd (transform u r b d pre) + snd (transform u r b d (a @ scheme @ jsdelivr_pattern u r b @ path @ post)))"
    using pre by (intro transform_boundary h(1-3)) blast
  then show "transform u r b d (pre @ a @ scheme @ jsdelivr_pattern u r b @ path @ post)
      = (fst (transform u r b d pre) @ a @ str ''https://'' @ d @ str ''/'' @ lstrip_slash path
           @ fst (transform u r b d post),
         snd (transform u r b d pre) + 1 + snd (transform u r b d post))"
    by (simp add: transform_jsdelivr_core[OF h clean])
next
  assume h: "\<forall>c\<in>set u. path_char c" "\<forall>c\<in>set r. path_char c" "\<forall>c\<in>set b. path_char c"
    "scheme = str ''http'' \<or> scheme = str ''https''" "path \<noteq> []" "\<forall>c\<in>set path. path_char c"
    "\<not> sublist (str ''http'') a" "post = [] \<or> \<not> path_char (hd post)"
    and pre: "pre = [] \<or> \<not> path_char (last pre)"
    and clean: "\<not> sublist (jsdelivr_pattern u r b) (scheme @ github_raw_pattern u r b @ path)"
  have "transform u r b d (pre @ (a @ scheme @ github_raw_pattern u r b @ path @ post)) =
     (fst (transform u r b d pre) @ fst (transform u r b d (a @ scheme @ github_raw_pattern u r b @ path @ post)),
      snd (transform u r b d pre) + snd (transform u r b d (a @ scheme @ github_raw_pattern u r b @ path @ post)))"
    using pre by (intro transform_boundary h(1-3)) blast
  then show "transform u r b d (pre @ a @ scheme @ github_raw_pattern u r b @ path @ post)
      = (fst (transform u r b d pre) @ a @ str ''https://'' @ d @ str ''/'' @ lstrip_slash path
           @ fst (transform u r b d post),
         snd (transform u r b d pre) + 1 + snd (transform u r b d post))"
    by (simp add: transform_github_raw_core[OF h clean])
qed

theorem links_rewritten_witness:
  "transform (str ''alice'') (str ''myrepo'') (str ''main'') (str ''cdn.example.com'')
       (str ''see ![img](http://cdn.jsdelivr.net/gh/alice/myrepo@main//images/a.png) end'')
     = (str ''see ![img](https://cdn.example.com/images/a.png) end'', 1)
   \<and> transform (str ''alice'') (str ''myrepo'') (str ''main'') (str ''cdn.example.com'')
       (str ''see <https://raw.githubusercontent.com/alice/myrepo/main/docs/b.txt> end'')
     = (str ''see <https://cdn.example.com/docs/b.txt> end'', 1)"
proof -
  let ?u = "str ''alice''" and ?r = "str ''myrepo''" and ?b = "str ''main''" and ?d = "str ''cdn.example.com''"
  have urb: "\<forall>c\<in>set ?u. path_char c" "\<forall>c\<in>set ?r. path_char c" "\<forall>c\<in>set ?b. path_char c"
    by (simp_all add: str_def path_char_def py_isspace_def)
  have pre: "str ''see '' = [] \<or> \<not> path_char (last (str ''see ''))"
    "str ''see <'' = [] \<or> \<not> path_char (last (str ''see <''))"
    by (simp_all add: str_def path_char_def py_isspace_def)
  have post: "str '') end'' = [] \<or> \<not> path_char (hd (str '') end''))"
    "str ''> end'' = [] \<or> \<not> path_char (hd (str ''> end''))"
    by (simp_all add: str_def path_char_def py_isspace_def)
  have a: "\<not> sublist (str ''http'') (str ''![img]('')" "\<not> sublist (str ''http'') []"
    by (simp_all add: str_def sublist_Cons_right)
  have p1: "str ''/images/a.png'' \<noteq> [] \<and> (\<forall>c\<in>set (str ''/images/a.png''). path_char c)"
    and p2: "str ''docs/b.txt'' \<noteq> [] \<and> (\<forall>c\<in>set (str ''docs/b.txt''). path_char c)"
    by (simp_all add: str_def path_char_def py_isspace_def)
  have c1: "\<not> sublist (github_raw_pattern ?u ?r ?b) (str ''https://'' @ ?d @ str ''/'' @ lstrip_slash (str ''/images/a.png''))"
    by (simp add: github_raw_pattern_def lstrip_slash_def str_def sublist_Cons_right)
  have c2: "\<not> sublist (jsdelivr_pattern ?u ?r ?b) (str ''https'' @ github_raw_pattern ?u ?r ?b @ str ''docs/b.txt'')"
    by (simp add: github_raw_pattern_def jsdelivr_pattern_def str_def sublist_Cons_right)
  have t0: "transform ?u ?r ?b ?d (str ''see '') = (str ''see '', 0)"
    "transform ?u ?r ?b ?d (str ''see <'') = (str ''see <'', 0)"
    "transform ?u ?r ?b ?d (str '') end'') = (str '') end'', 0)"
    "transform ?u ?r ?b ?d (str ''> end'') = (str ''> end'', 0)"
    by (simp_all add: transform_def re_sub.simps match_here_def str_def)
  have 1: "transform ?u ?r ?b ?d
        (str ''see '' @ str ''![img]('' @ str ''http'' @ jsdelivr_pattern ?u ?r ?b @ str ''/images/a.png'' @ str '') end'')
      = (fst (transform ?u ?r ?b ?d (str ''see '')) @ str ''![img]('' @ str ''https://'' @ ?d @ str ''/''
           @ lstrip_slash (str ''/images/a.png'') @ fst (transform ?u ?r ?b ?d (str '') end'')),
         snd (transform ?u ?r ?b ?d (str ''see '')) + 1 + snd (transform ?u ?r ?b ?d (str '') end'')))"
    using links_rewritten[of ?u ?r ?b "str ''http''" "str ''/images/a.png''" "str ''see ''" "str ''![img](''"
        "str '') end''" ?d] urb pre(1) post(1) a(1) p1 c1
    by blast
  have 2: "transform ?u ?r ?b ?d
        (str ''see <'' @ [] @ str ''https'' @ github_raw_pattern ?u ?r ?b @ str ''docs/b.txt'' @ str ''> end'')
      = (fst (transform ?u ?r ?b ?d (str ''see <'')) @ [] @ str ''https://'' @ ?d @ str ''/''
           @ lstrip_slash (str ''docs/b.txt'') @ fst (transform ?u ?r ?b ?d (str ''> end'')),
         snd (transform ?u ?r ?b ?d (str ''see <'')) + 1 + snd (transform ?u ?r ?b ?d (str ''> end'')))"
    using links_rewritten[of ?u ?r ?b "str ''https''" "str ''docs/b.txt''" "str ''see <''" "[]"
        "str ''> end''" ?d] urb pre(2) post(2) a(2) p2 c2
    by blast
  have e1: "str ''see '' @ str ''![img]('' @ str ''http'' @ jsdelivr_pattern ?u ?r ?b @ str ''/images/a.png'' @ str '') end''
      = str ''see ![img](http://cdn.jsdelivr.net/gh/alice/myrepo@main//images/a.png) end''"
    "str ''see '' @ str ''![img]('' @ str ''https://'' @ ?d @ str ''/''
           @ lstrip_slash (str ''/images/a.png'') @ str '') end''
      = str ''see ![img](https://cdn.example.com/images/a.png) end''"
    by (simp_all add: jsdelivr_pattern_def lstrip_slash_def str_def)
  have e2: "str ''see <'' @ [] @ str ''https'' @ github_raw_pattern ?u ?r ?b @ str ''docs/b.txt'' @ str ''> end''
      = str ''see <https://raw.githubusercontent.com/alice/myrepo/main/docs/b.txt> end''"
    "str ''see <'' @ [] @ str ''https://'' @ ?d @ str ''/'' @ lstrip_slash (str ''docs/b.txt'') @ str ''> end''
      = str ''see <https://cdn.example.com/docs/b.txt> end''"
    by (simp_all add: github_raw_pattern_def lstrip_slash_def str_def)
  from 1 have "transform ?u ?r ?b ?d (str ''see ![img](http://cdn.jsdelivr.net/gh/alice/myrepo@main//images/a.png) end'')
      = (str ''see ![img](https://cdn.example.com/images/a.png) end'', 1)"
    unfolding t0 e1 fst_conv snd_conv by simp
  moreover from 2 have "transform ?u ?r ?b ?d (str ''see <https://raw.githubusercontent.com/alice/myrepo/main/docs/b.txt> end'')
      = (str ''see <https://cdn.example.com/docs/b.txt> end'', 1)"
    unfolding t0 e2 fst_conv snd_conv by simp
  ultimately show ?thesis
    by (intro conjI)
qed

text \<open>
  C2 as stated fails for a link inside the path of a link of the same shape: the text
  below ends with an occurrence of the first link of the specification; it is still there
  after the transformation, and its rewritten form is nowhere in the result.
\<close>

theorem nested_link_not_rewritten:
  "transform (str ''alice'') (str ''myrepo'') (str ''main'') (str ''cdn.example.com'')
       (str ''https://cdn.jsdelivr.net/gh/alice/myrepo@main/x/'' @
        str ''https://cdn.jsdelivr.net/gh/alice/myrepo@main/images/a.png'')
     = (str ''https://cdn.example.com/x/'' @
        str ''https://cdn.jsdelivr.net/gh/alice/myrepo@main/images/a.png'', 1)
   \<and> \<not> sublist (str ''https://cdn.example.com/images/a.png'')
        (str ''https://cdn.example.com/x/'' @
         str ''https://cdn.jsdelivr.net/gh/alice/myrepo@main/images/a.png'')"
  by (simp add: transform_def re_sub.simps match_here_def match_tail_def jsdelivr_pattern_def
      github_raw_pattern_def replacer_def replacement_url_base_def lstrip_slash_def path_char_def
      py_isspace_def str_def sublist_Cons_right)

section \<open>A second application of the transformation\<close>

text \<open>Occurrences of \<open>://\<close>, that is of the code points 58, 47, 47.\<close>

lemma sep_code: "str ''://'' = [58, 47, 47]"
  by (simp add: str_def)

lemma sep_not_in_left:
  assumes "47 \<notin> set w" "sublist (str ''://'') (x @ w)"
  shows "sublist (str ''://'') x"
proof -
  from assms(2) consider "sublist (str ''://'') x" | "sublist (str ''://'') w"
    | xs1 xs2 where "str ''://'' = xs1 @ xs2" "suffix xs1 x" "prefix xs2 w"
    by (auto simp: sublist_append)
  then show ?thesis
  proof cases
    case 1
    then show ?thesis .
  next
    case 2
    then have "set (str ''://'') \<subseteq> set w"
      by (rule set_mono_sublist)
    with assms(1) show ?thesis
      by (simp add: sep_code)
  next
    case 3
    show ?thesis
    proof (cases "xs2 = []")
      case True
      with 3 show ?thesis by auto
    next
      case False
      then have "last xs2 = last (str ''://'')"
        using 3(1) by simp
      then have "last xs2 = 47"
        by (simp add: sep_code)
      moreover have "last xs2 \<in> set w"
        using False 3(3) by (meson last_in_set set_mono_prefix subsetD)
      ultimately show ?thesis
        using assms(1) by simp
    qed
  qed
qed

lemma sep_not_in_right:
  assumes "58 \<notin> set w" "sublist (str ''://'') (w @ y)"
  shows "sublist (str ''://'') y"
proof -
  from assms(2) consider "sublist (str ''://'') w" | "sublist (str ''://'') y"
    | xs1 xs2 where "str ''://'' = xs1 @ xs2" "suffix xs1 w" "prefix xs2 y"
    by (auto simp: sublist_append)
  then show ?thesis
  proof cases
    case 1
    then have "set (str ''://'') \<subseteq> set w"
      by (rule set_mono_sublist)
    with assms(1) show ?thesis
      by (simp add: sep_code)
  next
    case 2
    then show ?thesis .
  next
    case 3
    show ?thesis
    proof (cases "xs1 = []")
      case True
      with 3 show ?thesis by auto
    next
      case False
      then have "hd xs1 = hd (str ''://'')"
        using 3(1) by simp
      then have "hd xs1 = 58"
        by (simp add: sep_code)
      moreover have "hd xs1 \<in> set w"
        using False 3(2) by (meson hd_in_set set_mono_suffix subsetD)
      ultimately show ?thesis
        using assms(1) by simp
    qed
  qed
qed

lemma sep_split:
  assumes "us @ vs = str ''://''" "us \<noteq> []" "vs \<noteq> []"
  shows "hd vs = 47"
proof -
  from assms obtain c us' where us: "us = c # us'"
    by (cases us) auto
  with assms(1) have "us' @ vs = [47, 47]"
    by (simp add: sep_code)
  then have "set (us' @ vs) = {47}"
    by simp
  then have "set vs \<subseteq> {47}"
    by auto
  moreover have "hd vs \<in> set vs"
    using assms(3) by simp
  ultimately show "hd vs = 47"
    by auto
qed

lemma sep_hd: "hd (str ''://'' @ y) = 58"
  by (simp add: sep_code)

lemma sep_overlap:
  assumes "us @ str ''://'' @ Y = str ''://'' @ y" "us \<noteq> []"
  shows "sublist (str ''://'') us"
proof -
  from assms(1) obtain vs where "us = str ''://'' @ vs \<or> (us @ vs = str ''://'' \<and> str ''://'' @ Y = vs @ y)"
    by (auto simp: append_eq_append_conv2)
  then consider "us = str ''://'' @ vs" | "us = str ''://''"
    | "us @ vs = str ''://''" "vs \<noteq> []" "str ''://'' @ Y = vs @ y"
    by (cases "vs = []") auto
  then show ?thesis
  proof cases
    case 1
    then show ?thesis by simp
  next
    case 2
    then show ?thesis by simp
  next
    case 3
    have "hd vs = 47"
      using sep_split[OF 3(1) assms(2) 3(2)] .
    moreover have "hd vs = hd (str ''://'' @ Y)"
      using 3(2,3) by (cases vs) (simp_all)
    ultimately show ?thesis
      by (simp add: sep_hd)
  qed
qed

lemma sep_overlap_right:
  assumes "str ''://'' @ Y = us @ str ''://'' @ y" "us \<noteq> []"
  shows "sublist (str ''://'') Y"
proof -
  from assms(1) obtain vs where "(str ''://'' = us @ vs \<and> vs @ Y = str ''://'' @ y)
      \<or> (str ''://'' @ vs = us \<and> Y = vs @ str ''://'' @ y)"
    by (auto simp: append_eq_append_conv2)
  then consider "us @ vs = str ''://''" "vs @ Y = str ''://'' @ y"
    | "Y = vs @ str ''://'' @ y"
    by auto
  then show ?thesis
  proof cases
    case 1
    show ?thesis
    proof (cases "vs = []")
      case True
      with 1(2) show ?thesis by simp
    next
      case False
      have "hd vs = 47"
        using sep_split[OF 1(1) assms(2) False] .
      moreover have "hd vs = hd (str ''://'' @ y)"
        using False 1(2) by (cases vs) (simp_all, metis list.sel(1))
      ultimately show ?thesis
        by (simp add: sep_hd)
    qed
  next
    case 2
    then show ?thesis by simp
  qed
qed

lemma sep_unique:
  assumes eq: "X @ str ''://'' @ Y = x @ str ''://'' @ y"
    and X: "\<not> sublist (str ''://'') X" and Y: "\<not> sublist (str ''://'') Y"
  shows "x = X \<and> y = Y"
proof -
  from eq obtain us where "(X = x @ us \<and> us @ str ''://'' @ Y = str ''://'' @ y)
      \<or> (X @ us = x \<and> str ''://'' @ Y = us @ str ''://'' @ y)"
    using append_eq_append_conv2[of X "str ''://'' @ Y" x "str ''://'' @ y"] by blast
  then consider "X = x @ us" "us @ str ''://'' @ Y = str ''://'' @ y"
    | "X @ us = x" "str ''://'' @ Y = us @ str ''://'' @ y"
    by auto
  then show ?thesis
  proof cases
    case 1
    have "us = []"
    proof (rule ccontr)
      assume "us \<noteq> []"
      with 1(2) have "sublist (str ''://'') us"
        by (rule sep_overlap)
      moreover have "sublist us X"
        unfolding 1(1) by simp
      ultimately have "sublist (str ''://'') X"
        by (rule sublist_order.order_trans)
      with X show False ..
    qed
    with 1 show ?thesis by simp
  next
    case 2
    have "us = []"
    proof (rule ccontr)
      assume "us \<noteq> []"
      with 2(2) have "sublist (str ''://'') Y"
        by (rule sep_overlap_right)
      with Y show False ..
    qed
    with 2 show ?thesis by simp
  qed
qed

lemma pattern_shape:
  "jsdelivr_pattern u r b = str ''://'' @ str ''cdn.jsdelivr.net'' @ 47 # (str ''gh/'' @ u @ str ''/'' @ r @ str ''@'' @ b @ str ''/'')"
  "github_raw_pattern u r b = str ''://'' @ str ''raw.githubusercontent.com'' @ 47 # (u @ str ''/'' @ r @ str ''/'' @ b @ str ''/'')"
  by (simp_all add: jsdelivr_pattern_def github_raw_pattern_def str_def)

lemma host_no_slash:
  "47 \<notin> set (str ''cdn.jsdelivr.net'')" "47 \<notin> set (str ''raw.githubusercontent.com'')"
  by (simp_all add: str_def)

lemma split_first:
  assumes "x @ c # y = x' @ c # y'" "c \<notin> set x" "c \<notin> set x'"
  shows "x = x'"
proof -
  have "takeWhile (\<lambda>e. e \<noteq> c) (x @ c # y) = x" "takeWhile (\<lambda>e. e \<noteq> c) (x' @ c # y') = x'"
    using assms(2,3) by (auto intro!: takeWhile_stop)
  with assms(1) show ?thesis
    by simp
qed

text \<open>
  After a link has been rewritten in a run of characters that holds \<open>://\<close> only once,
  neither pattern matches anywhere in the result, provided the domain has no \<open>:\<close> and
  no \<open>/\<close> and is neither of the two hosts.
\<close>

lemma no_match_in_rewritten:
  assumes d: "58 \<notin> set d" "47 \<notin> set d" "d \<noteq> str ''cdn.jsdelivr.net''" "d \<noteq> str ''raw.githubusercontent.com''"
    and lit: "lit = jsdelivr_pattern u r b \<or> lit = github_raw_pattern u r b"
    and lit': "lit' = jsdelivr_pattern u r b \<or> lit' = github_raw_pattern u r b"
    and scheme: "scheme = str ''http'' \<or> scheme = str ''https''"
    and uniq: "\<And>x y z. a @ scheme @ lit @ path \<noteq> x @ str ''://'' @ y @ str ''://'' @ z"
  shows "match_here lit' (drop i (a @ str ''https://'' @ d @ str ''/'' @ lstrip_slash path)) = None"
proof (rule ccontr)
  let ?M = "str ''://''"
  let ?p = "lstrip_slash path"
  define whole where "whole = a @ str ''https://'' @ d @ str ''/'' @ ?p"
  assume "match_here lit' (drop i (a @ str ''https://'' @ d @ str ''/'' @ ?p)) \<noteq> None"
  then obtain p' r' where m: "match_here lit' (drop i whole) = Some (p', r')"
    unfolding whole_def by auto
  from lit obtain host tl where lit_eq: "lit = ?M @ host @ 47 # tl"
    using pattern_shape[of u r b] by blast
  from lit' obtain host' tl' where lit'_eq: "lit' = ?M @ host' @ 47 # tl'" and host': "47 \<notin> set host'"
      "host' = str ''cdn.jsdelivr.net'' \<or> host' = str ''raw.githubusercontent.com''"
    using pattern_shape[of u r b] host_no_slash by blast
  have f1: "\<not> sublist ?M (a @ scheme)"
  proof
    assume "sublist ?M (a @ scheme)"
    then obtain ps ss where "a @ scheme = ps @ ?M @ ss"
      by (auto simp: sublist_def)
    then have "a @ scheme @ lit @ path = ps @ ?M @ ss @ ?M @ (host @ 47 # tl @ path)"
      by (simp add: lit_eq)
    with uniq show False by blast
  qed
  have f1': "\<not> sublist ?M (a @ str ''https'')"
  proof (cases "scheme = str ''https''")
    case True
    with f1 show ?thesis by simp
  next
    case False
    with scheme have "scheme = str ''http''"
      by simp
    with f1 have "\<not> sublist ?M (a @ str ''http'')"
      by simp
    moreover have "a @ str ''https'' = (a @ str ''http'') @ str ''s''"
      by (simp add: str_def)
    moreover have "47 \<notin> set (str ''s'')"
      by (simp add: str_def)
    ultimately show ?thesis
      using sep_not_in_left[of "str ''s''" "a @ str ''http''"] by auto
  qed
  have f2: "\<not> sublist ?M ?p"
  proof
    assume "sublist ?M ?p"
    then obtain ps ss where p: "?p = ps @ ?M @ ss"
      by (auto simp: sublist_def)
    have "path = takeWhile (\<lambda>c. c = 47) path @ ?p"
      by (simp add: lstrip_slash_def)
    then have "path = takeWhile (\<lambda>c. c = 47) path @ ps @ ?M @ ss"
      using p by simp
    then have "a @ scheme @ lit @ path
        = (a @ scheme) @ ?M @ (host @ 47 # tl @ takeWhile (\<lambda>c. c = 47) path @ ps) @ ?M @ ss"
      by (simp add: lit_eq)
    with uniq show False by blast
  qed
  have f3: "\<not> sublist ?M (d @ str ''/'' @ ?p)"
  proof
    assume "sublist ?M (d @ str ''/'' @ ?p)"
    then have "sublist ?M ((d @ str ''/'') @ ?p)"
      by simp
    moreover have "58 \<notin> set (d @ str ''/'')"
      using d(1) by (simp add: str_def)
    ultimately have "sublist ?M ?p"
      by (rule sep_not_in_right[rotated])
    with f2 show False ..
  qed
  from match_here_SomeD[OF m] obtain scheme' where dr: "drop i whole = scheme' @ lit' @ p' @ r'"
    by blast
  have e1: "(take i whole @ scheme') @ ?M @ (host' @ 47 # tl' @ p' @ r') = take i whole @ drop i whole"
    unfolding dr lit'_eq by simp
  have e2: "(a @ str ''https'') @ ?M @ (d @ str ''/'' @ ?p) = whole"
    by (simp add: whole_def str_def)
  have "(a @ str ''https'') @ ?M @ (d @ str ''/'' @ ?p)
      = (take i whole @ scheme') @ ?M @ (host' @ 47 # tl' @ p' @ r')"
    unfolding e1 e2 by (rule append_take_drop_id[symmetric])
  from sep_unique[OF this f1' f3] have "host' @ 47 # tl' @ p' @ r' = d @ str ''/'' @ ?p"
    by simp
  then have "host' @ 47 # (tl' @ p' @ r') = d @ 47 # ?p"
    by (simp add: str_def)
  then have "host' = d"
    using host'(1) d(2) by (rule split_first)
  with host'(2) d(3,4) show False
    by auto
qed

lemma re_sub_skip:
  assumes "\<And>j. j < n \<Longrightarrow> match_here lit (drop j t) = None" "n \<le> length t"
  shows "re_sub lit d t 0 = (take n t @ fst (re_sub lit d (drop n t) 0), snd (re_sub lit d (drop n t) 0))"
  using assms
proof (induction n arbitrary: t)
  case 0
  show ?case by simp
next
  case (Suc n)
  then obtain c cs where t: "t = c # cs"
    by (cases t) auto
  have "match_here lit (drop 0 t) = None"
    by (rule Suc.prems(1)) simp
  then have here: "match_here lit (c # cs) = None"
    by (simp add: t)
  have "re_sub lit d cs 0 = (take n cs @ fst (re_sub lit d (drop n cs) 0), snd (re_sub lit d (drop n cs) 0))"
  proof (rule Suc.IH)
    show "n \<le> length cs"
      using Suc.prems(2) by (simp add: t)
  next
    fix j
    assume "j < n"
    then show "match_here lit (drop j cs) = None"
      using Suc.prems(1)[of "Suc j"] by (simp add: t)
  qed
  with here show ?case
    by (simp add: t re_sub_None)
qed

lemma token_first_match:
  assumes tok: "\<forall>c\<in>set k. path_char c" and ex: "match_here lit (drop i k) \<noteq> None"
  obtains a scheme path where "k = a @ scheme @ lit @ path" "scheme = str ''http'' \<or> scheme = str ''https''"
    "re_sub lit d k 0 = (a @ str ''https://'' @ d @ str ''/'' @ lstrip_slash path, 1)"
proof -
  define i0 where "i0 = (LEAST i. match_here lit (drop i k) \<noteq> None)"
  have at: "match_here lit (drop i0 k) \<noteq> None"
    unfolding i0_def using ex by (rule LeastI)
  have below: "match_here lit (drop j k) = None" if "j < i0" for j
  proof -
    from that have "\<not> match_here lit (drop j k) \<noteq> None"
      unfolding i0_def by (rule not_less_Least)
    then show ?thesis
      by (cases "match_here lit (drop j k)") auto
  qed
  have "drop i0 k \<noteq> []"
    using at by (auto simp: match_here_def str_def)
  then have le: "i0 \<le> length k"
    by simp
  from at obtain path rest where m: "match_here lit (drop i0 k) = Some (path, rest)"
    by auto
  note sd = match_here_SomeD[OF m]
  from sd obtain scheme where scheme: "scheme = str ''http'' \<or> scheme = str ''https''"
    and dr: "drop i0 k = scheme @ lit @ path @ rest"
    by blast
  have "set rest \<subseteq> set k"
    using dr by (metis Un_upper2 set_append set_drop_subset subset_trans)
  then have "rest = []"
    using sd tok by (cases rest) auto
  have "re_sub lit d (drop i0 k) 0 = (str ''https://'' @ d @ str ''/'' @ lstrip_slash path, 1)"
    using m \<open>rest = []\<close> by (simp add: re_sub_Some re_sub.simps(1))
  then have "re_sub lit d k 0 = (take i0 k @ str ''https://'' @ d @ str ''/'' @ lstrip_slash path, 1)"
    using re_sub_skip[of i0 lit k d, OF below le] by simp
  moreover have "k = take i0 k @ scheme @ lit @ path"
    using dr \<open>rest = []\<close> by (metis append_Nil2 append_take_drop_id)
  ultimately show ?thesis
    using that scheme by blast
qed

lemma transform_no_match:
  assumes "\<And>i. match_here (jsdelivr_pattern u r b) (drop i t) = None"
    and "\<And>i. match_here (github_raw_pattern u r b) (drop i t) = None"
  shows "transform u r b d t = (t, 0)"
  using re_sub_no_match[of "jsdelivr_pattern u r b" t d 0, OF assms(1)]
    re_sub_no_match[of "github_raw_pattern u r b" t d 0, OF assms(2)]
  by (simp add: transform_def)

text \<open>
  On a run of path characters that holds \<open>://\<close> at most once, a second application of
  the transformation changes nothing and counts nothing.
\<close>

lemma token_idempotent:
  assumes d: "58 \<notin> set d" "47 \<notin> set d" "d \<noteq> str ''cdn.jsdelivr.net''" "d \<noteq> str ''raw.githubusercontent.com''"
    and tok: "\<forall>c\<in>set k. path_char c"
    and uniq: "\<And>x y z. k \<noteq> x @ str ''://'' @ y @ str ''://'' @ z"
  shows "transform u r b d (fst (transform u r b d k)) = (fst (transform u r b d k), 0)"
proof -
  let ?j = "jsdelivr_pattern u r b" and ?g = "github_raw_pattern u r b"
  have rewritten: "transform u r b d (a @ str ''https://'' @ d @ str ''/'' @ lstrip_slash path)
        = (a @ str ''https://'' @ d @ str ''/'' @ lstrip_slash path, 0)"
    if "k = a @ scheme @ lit @ path" "scheme = str ''http'' \<or> scheme = str ''https''"
      "lit = ?j \<or> lit = ?g" for a scheme lit path
  proof (rule transform_no_match)
    fix i
    have u: "a @ scheme @ lit @ path \<noteq> x @ str ''://'' @ y @ str ''://'' @ z" for x y z
      using uniq[of x y z] that(1) by simp
    show "match_here ?j (drop i (a @ str ''https://'' @ d @ str ''/'' @ lstrip_slash path)) = None"
      using no_match_in_rewritten[OF d that(3) _ that(2) u, of ?j i] by simp
    show "match_here ?g (drop i (a @ str ''https://'' @ d @ str ''/'' @ lstrip_slash path)) = None"
      using no_match_in_rewritten[OF d that(3) _ that(2) u, of ?g i] by simp
  qed
  show ?thesis
  proof (cases "\<exists>i. match_here ?j (drop i k) \<noteq> None")
    case True
    then obtain i where "match_here ?j (drop i k) \<noteq> None"
      by blast
    from token_first_match[OF tok this, of d] obtain a scheme path where
      k: "k = a @ scheme @ ?j @ path" and scheme: "scheme = str ''http'' \<or> scheme = str ''https''"
      and r1: "re_sub ?j d k 0 = (a @ str ''https://'' @ d @ str ''/'' @ lstrip_slash path, 1)"
      by blast
    have id: "transform u r b d (a @ str ''https://'' @ d @ str ''/'' @ lstrip_slash path)
        = (a @ str ''https://'' @ d @ str ''/'' @ lstrip_slash path, 0)"
      using rewritten[OF k scheme] by simp
    have "re_sub ?g d (a @ str ''https://'' @ d @ str ''/'' @ lstrip_slash path) 0
        = (a @ str ''https://'' @ d @ str ''/'' @ lstrip_slash path, 0)"
    proof (rule re_sub_no_match)
      fix i
      have u: "a @ scheme @ ?j @ path \<noteq> x @ str ''://'' @ y @ str ''://'' @ z" for x y z
        using uniq[of x y z] k by simp
      show "match_here ?g (drop i (a @ str ''https://'' @ d @ str ''/'' @ lstrip_slash path)) = None"
        using no_match_in_rewritten[OF d _ _ scheme u, of u r b ?g i] by simp
    qed
    then have "fst (transform u r b d k) = a @ str ''https://'' @ d @ str ''/'' @ lstrip_slash path"
      by (simp add: transform_eq r1)
    with id show ?thesis
      by simp
  next
    case noj: False
    then have "match_here ?j (drop i k) = None" for i
      by blast
    then have r1: "re_sub ?j d k 0 = (k, 0)"
      by (rule re_sub_no_match)
    show ?thesis
    proof (cases "\<exists>i. match_here ?g (drop i k) \<noteq> None")
      case True
      then obtain i where "match_here ?g (drop i k) \<noteq> None"
        by blast
      from token_first_match[OF tok this, of d] obtain a scheme path where
        k: "k = a @ scheme @ ?g @ path" and scheme: "scheme = str ''http'' \<or> scheme = str ''https''"
        and r2: "re_sub ?g d k 0 = (a @ str ''https://'' @ d @ str ''/'' @ lstrip_slash path, 1)"
        by blast
      have "fst (transform u r b d k) = a @ str ''https://'' @ d @ str ''/'' @ lstrip_slash path"
        by (simp add: transform_eq r1 r2)
      with rewritten[OF k scheme] show ?thesis
        by simp
    next
      case False
      then have "match_here ?g (drop i k) = None" for i
        by blast
      then have "re_sub ?g d k 0 = (k, 0)"
        by (rule re_sub_no_match)
      with r1 have "transform u r b d k = (k, 0)"
        by (simp add: transform_eq)
      then show ?thesis
        by simp
    qed
  qed
qed

lemma transform_delim:
  assumes urb: "\<forall>c\<in>set u. path_char c" "\<forall>c\<in>set r. path_char c" "\<forall>c\<in>set b. path_char c"
    and dl: "\<not> path_char dl"
  shows "transform u r b d (k @ dl # t) =
     (fst (transform u r b d k) @ dl # fst (transform u r b d t),
      snd (transform u r b d k) + snd (transform u r b d t))"
proof -
  have 1: "transform u r b d (k @ (dl # t)) =
     (fst (transform u r b d k) @ fst (transform u r b d (dl # t)),
      snd (transform u r b d k) + snd (transform u r b d (dl # t)))"
    using dl by (intro transform_boundary urb) simp
  have "transform u r b d ([dl] @ t) =
     (fst (transform u r b d [dl]) @ fst (transform u r b d t),
      snd (transform u r b d [dl]) + snd (transform u r b d t))"
    using dl by (intro transform_boundary urb) simp
  moreover have "transform u r b d [dl] = ([dl], 0)"
    using dl by (simp add: transform_eq re_sub_cons_delim re_sub.simps(1))
  ultimately have "transform u r b d (dl # t) = (dl # fst (transform u r b d t), snd (transform u r b d t))"
    by simp
  with 1 show ?thesis
    by simp
qed

lemma text_idempotent:
  assumes urb: "\<forall>c\<in>set u. path_char c" "\<forall>c\<in>set r. path_char c" "\<forall>c\<in>set b. path_char c"
    and d: "58 \<notin> set d" "47 \<notin> set d" "d \<noteq> str ''cdn.jsdelivr.net''" "d \<noteq> str ''raw.githubusercontent.com''"
    and sep: "\<And>x y z. t = x @ str ''://'' @ y @ str ''://'' @ z \<Longrightarrow> \<exists>c\<in>set y. \<not> path_char c"
  shows "transform u r b d (fst (transform u r b d t)) = (fst (transform u r b d t), 0)"
  using sep
proof (induction "length t" arbitrary: t rule: less_induct)
  case less
  define k where "k = takeWhile path_char t"
  define rest where "rest = dropWhile path_char t"
  have t: "t = k @ rest"
    by (simp add: k_def rest_def)
  have tok: "\<forall>c\<in>set k. path_char c"
    by (auto simp: k_def dest: set_takeWhileD)
  have uniq: "k \<noteq> x @ str ''://'' @ y @ str ''://'' @ z" for x y z
  proof
    assume k: "k = x @ str ''://'' @ y @ str ''://'' @ z"
    then have "t = x @ str ''://'' @ y @ str ''://'' @ (z @ rest)"
      by (simp add: t)
    then have "\<exists>c\<in>set y. \<not> path_char c"
      by (rule less.prems)
    moreover have "set y \<subseteq> set k"
      unfolding k by auto
    ultimately show False
      using tok by blast
  qed
  note idk = token_idempotent[OF d tok uniq, of u r b]
  show ?case
  proof (cases rest)
    case Nil
    with t idk show ?thesis
      by simp
  next
    case (Cons dl t')
    have "dropWhile path_char t \<noteq> []"
      using Cons by (simp add: rest_def)
    then have "\<not> path_char (hd (dropWhile path_char t))"
      by (rule hd_dropWhile)
    then have dl: "\<not> path_char dl"
      using Cons by (simp add: rest_def)
    have t2: "t = k @ dl # t'"
      using t Cons by simp
    have "length t' < length t"
      by (simp add: t2)
    moreover have "\<exists>c\<in>set y. \<not> path_char c" if "t' = x @ str ''://'' @ y @ str ''://'' @ z" for x y z
    proof -
      from that have "t = (k @ dl # x) @ str ''://'' @ y @ str ''://'' @ z"
        by (simp add: t2)
      then show ?thesis
        by (rule less.prems)
    qed
    ultimately have idt: "transform u r b d (fst (transform u r b d t')) = (fst (transform u r b d t'), 0)"
      by (rule less.hyps)
    have 1: "fst (transform u r b d t) = fst (transform u r b d k) @ dl # fst (transform u r b d t')"
      unfolding t2 by (simp add: transform_delim[OF urb dl])
    show ?thesis
      unfolding 1 by (simp add: transform_delim[OF urb dl] idk idt)
  qed
qed

lemma single_scheme_sound:
  "single_scheme seen t \<Longrightarrow>
     (\<forall>x y z. t = x @ str ''://'' @ y @ str ''://'' @ z \<longrightarrow> (\<exists>c\<in>set y. \<not> path_char c))
     \<and> (seen \<longrightarrow> (\<forall>x z. t = x @ str ''://'' @ z \<longrightarrow> (\<exists>c\<in>set x. \<not> path_char c)))"
proof (induction t arbitrary: seen)
  case Nil
  show ?case
    by (simp add: sep_code)
next
  case (Cons c cs)
  have pc: "path_char 58" "path_char 47"
    by (simp_all add: path_char_def py_isspace_def)
  from Cons.prems obtain s' where s': "single_scheme s' cs"
    by (auto split: if_splits)
  note ih = Cons.IH[OF s']
  have starts: "\<not> seen \<and> single_scheme True cs" if "c # cs = str ''://'' @ w" for w
  proof -
    from that have "c = 58" "prefix (str ''://'') (c # cs)"
      by (simp_all add: sep_code)
    with Cons.prems pc(1) show ?thesis
      by simp
  qed
  show ?case
  proof (intro conjI allI impI)
    fix x y z
    assume e: "c # cs = x @ str ''://'' @ y @ str ''://'' @ z"
    show "\<exists>c\<in>set y. \<not> path_char c"
    proof (cases x)
      case Nil
      with e have e': "c # cs = str ''://'' @ (y @ str ''://'' @ z)"
        by simp
      then have t: "single_scheme True cs"
        using starts by blast
      from e' have "cs = ([47, 47] @ y) @ str ''://'' @ z"
        by (simp add: sep_code)
      with Cons.IH[OF t] have "\<exists>c\<in>set ([47, 47] @ y). \<not> path_char c"
        by blast
      with pc(2) show ?thesis
        by auto
    next
      case (Cons c' x')
      with e have "cs = x' @ str ''://'' @ y @ str ''://'' @ z"
        by simp
      with ih show ?thesis
        by blast
    qed
  next
    fix x z
    assume seen and e: "c # cs = x @ str ''://'' @ z"
    show "\<exists>c\<in>set x. \<not> path_char c"
    proof (cases x)
      case Nil
      with e starts[of z] \<open>seen\<close> show ?thesis
        by simp
    next
      case x: (Cons c' x')
      with e have c': "c' = c" and cs: "cs = x' @ str ''://'' @ z"
        by simp_all
      show ?thesis
      proof (cases "path_char c")
        case False
        with x c' show ?thesis
          by auto
      next
        case True
        have np: "\<not> prefix (str ''://'') (c # cs)"
        proof
          assume "prefix (str ''://'') (c # cs)"
          then obtain w where "c # cs = str ''://'' @ w"
            by (auto simp: prefix_def)
          with starts \<open>seen\<close> show False
            by blast
        qed
        with True Cons.prems have "single_scheme seen cs"
          by simp
        from Cons.IH[OF this] \<open>seen\<close> cs have "\<exists>c\<in>set x'. \<not> path_char c"
          by blast
        with x show ?thesis
          by auto
      qed
    qed
  qed
qed

lemma second_run_of_file:
  assumes idem: "transform u r b d (fst (transform u r b d content)) = (fst (transform u r b d content), 0)"
    and rd: "read_file w filepath = Inr content"
    and wr: "\<forall>f. files w filepath = Some f \<longrightarrow> write_exc f = None"
  shows "replace_links_in_file filepath u r b d (snd (replace_links_in_file filepath u r b d w))
     = (0, snd (replace_links_in_file filepath u r b d w))"
proof -
  obtain t1 n where t: "transform u r b d content = (t1, n)"
    by (cases "transform u r b d content") auto
  from idem t have idem': "transform u r b d t1 = (t1, 0)"
    by simp
  from rd obtain f where f: "files w filepath = Some f" "read_exc f = None" "data f = content"
    by (auto simp: read_file_def split: option.splits)
  show ?thesis
  proof (cases "t1 = content")
    case True
    with idem' t have n: "n = 0"
      by simp
    have "replace_links_in_file filepath u r b d w = (0, w)"
      using replace_links_in_file_read[OF rd t] True n by simp
    then show ?thesis
      by simp
  next
    case False
    define w' where "w' = w\<lparr>files := (files w)(filepath \<mapsto> f\<lparr>data := t1\<rparr>),
        written := written w @ [filepath]\<rparr>"
    have "write_exc f = None"
      using wr f(1) by simp
    then have "write_file w filepath t1 = Inr w'"
      using f(1) by (simp add: write_file_def w'_def)
    then have 1: "replace_links_in_file filepath u r b d w = (n, print (Replaced n) w')"
      using replace_links_in_file_read[OF rd t] False by simp
    have "read_file (print (Replaced n) w') filepath = Inr t1"
      using f(2) by (simp add: read_file_def print_def w'_def)
    from replace_links_in_file_read[OF this idem'] show ?thesis
      unfolding 1 by simp
  qed
qed

text \<open>
  C5, as amended. Let owner, name and branch consist of path characters, let the domain
  hold neither \<open>:\<close> (58) nor \<open>/\<close> (47) and be neither \<open>cdn.jsdelivr.net\<close> nor
  \<open>raw.githubusercontent.com\<close>, and let the text hold, between any two occurrences of
  \<open>://\<close>, a character that no path can contain (no link inside the path of another).
  Then applying the two substitutions to the output of their first application yields the
  same text and counts no replacement; and for a file with this text that can be read and
  written, processing it again after it has been processed returns the count 0 and leaves
  the world as it is.
\<close>

theorem second_application_changes_nothing:
  assumes "\<forall>c\<in>set u. path_char c" "\<forall>c\<in>set r. path_char c" "\<forall>c\<in>set b. path_char c"
    and "58 \<notin> set d" "47 \<notin> set d"
    and "d \<noteq> str ''cdn.jsdelivr.net''" "d \<noteq> str ''raw.githubusercontent.com''"
    and "\<forall>x y z. content = x @ str ''://'' @ y @ str ''://'' @ z \<longrightarrow> (\<exists>c\<in>set y. \<not> path_char c)"
  shows "transform u r b d (fst (transform u r b d content)) = (fst (transform u r b d content), 0)
     \<and> (read_file w filepath = Inr content \<and> (\<forall>f. files w filepath = Some f \<longrightarrow> write_exc f = None) \<longrightarrow>
          replace_links_in_file filepath u r b d (snd (replace_links_in_file filepath u r b d w))
            = (0, snd (replace_links_in_file filepath u r b d w)))"
proof -
  have "transform u r b d (fst (transform u r b d content)) = (fst (transform u r b d content), 0)"
    using assms by (intro text_idempotent) blast+
  then show ?thesis
    using second_run_of_file[of u r b d content w filepath] by blast
qed

theorem second_application_changes_nothing_witness:
  "transform (str ''alice'') (str ''myrepo'') (str ''main'') (str ''cdn.example.com'')
     (str ''![a](https://cdn.example.com/images/a.png) and <https://cdn.example.com/docs/b.txt> (see http://x.org/)'')
   = (str ''![a](https://cdn.example.com/images/a.png) and <https://cdn.example.com/docs/b.txt> (see http://x.org/)'', 0)
   \<and> fst (transform (str ''alice'') (str ''myrepo'') (str ''main'') (str ''cdn.example.com'')
     (str ''![a](http://cdn.jsdelivr.net/gh/alice/myrepo@main/images/a.png) and <https://raw.githubusercontent.com/alice/myrepo/main//docs/b.txt> (see http://x.org/)''))
   = str ''![a](https://cdn.example.com/images/a.png) and <https://cdn.example.com/docs/b.txt> (see http://x.org/)''
   \<and> fst (replace_links_in_file (str ''./a.md'') (str ''alice'') (str ''myrepo'') (str ''main'') (str ''cdn.example.com'')
        (snd (replace_links_in_file (str ''./a.md'') (str ''alice'') (str ''myrepo'') (str ''main'') (str ''cdn.example.com'')
           (example_world (str ''![a](http://cdn.jsdelivr.net/gh/alice/myrepo@main/images/a.png) and <https://raw.githubusercontent.com/alice/myrepo/main//docs/b.txt> (see http://x.org/)'') None))))
     = 0"
proof -
  let ?u = "str ''alice''" and ?r = "str ''myrepo''" and ?b = "str ''main''" and ?d = "str ''cdn.example.com''"
  let ?t = "str ''![a](http://cdn.jsdelivr.net/gh/alice/myrepo@main/images/a.png) and <https://raw.githubusercontent.com/alice/myrepo/main//docs/b.txt> (see http://x.org/)''"
  let ?w = "example_world ?t None"
  have urb: "\<forall>c\<in>set ?u. path_char c" "\<forall>c\<in>set ?r. path_char c" "\<forall>c\<in>set ?b. path_char c"
    by (simp_all add: str_def path_char_def py_isspace_def)
  have d: "58 \<notin> set ?d" "47 \<notin> set ?d" "?d \<noteq> str ''cdn.jsdelivr.net''" "?d \<noteq> str ''raw.githubusercontent.com''"
    by (simp_all add: str_def)
  have "single_scheme False ?t"
    by (simp add: str_def path_char_def py_isspace_def)
  then have sep: "\<forall>x y z. ?t = x @ str ''://'' @ y @ str ''://'' @ z \<longrightarrow> (\<exists>c\<in>set y. \<not> path_char c)"
    using single_scheme_sound[of False ?t] by blast
  have first: "fst (transform ?u ?r ?b ?d ?t)
      = str ''![a](https://cdn.example.com/images/a.png) and <https://cdn.example.com/docs/b.txt> (see http://x.org/)''"
    by (simp add: transform_def re_sub.simps match_here_def match_tail_def jsdelivr_pattern_def
        github_raw_pattern_def replacer_def replacement_url_base_def lstrip_slash_def path_char_def
        py_isspace_def str_def)
  have rd: "read_file ?w (str ''./a.md'') = Inr ?t"
    and wr: "\<forall>f. files ?w (str ''./a.md'') = Some f \<longrightarrow> write_exc f = None"
    by (simp_all add: read_file_def example_world_def)
  note inst = second_application_changes_nothing[OF urb d sep, of ?w "str ''./a.md''"]
  from inst have 1: "transform ?u ?r ?b ?d (fst (transform ?u ?r ?b ?d ?t)) = (fst (transform ?u ?r ?b ?d ?t), 0)"
    by (rule conjunct1)
  from inst rd wr have 2: "replace_links_in_file (str ''./a.md'') ?u ?r ?b ?d
        (snd (replace_links_in_file (str ''./a.md'') ?u ?r ?b ?d ?w))
      = (0, snd (replace_links_in_file (str ''./a.md'') ?u ?r ?b ?d ?w))"
    by blast
  from 1 2 first show ?thesis
    by simp
qed

text \<open>
  C5 as stated fails on a link whose path is again a link: the first application rewrites
  the outer link, the second the inner one.
\<close>

theorem second_application_rewrites_nested_link:
  "transform (str ''alice'') (str ''myrepo'') (str ''main'') (str ''cdn.example.com'')
       (str ''https://raw.githubusercontent.com/alice/myrepo/main/'' @
        str ''https://raw.githubusercontent.com/alice/myrepo/main/x'')
     = (str ''https://cdn.example.com/'' @ str ''https://raw.githubusercontent.com/alice/myrepo/main/x'', 1)
   \<and> transform (str ''alice'') (str ''myrepo'') (str ''main'') (str ''cdn.example.com'')
       (str ''https://cdn.example.com/'' @ str ''https://raw.githubusercontent.com/alice/myrepo/main/x'')
     = (str ''https://cdn.example.com/'' @ str ''https://cdn.example.com/x'', 1)
   \<and> str ''https://cdn.example.com/'' @ str ''https://cdn.example.com/x''
     \<noteq> str ''https://cdn.example.com/'' @ str ''https://raw.githubusercontent.com/alice/myrepo/main/x''"
  by (simp add: transform_def re_sub.simps match_here_def match_tail_def jsdelivr_pattern_def
      github_raw_pattern_def replacer_def replacement_url_base_def lstrip_slash_def path_char_def
      py_isspace_def str_def)

section \<open>Links that are left alone\<close>



end
